theory Spec2Isabelle
  imports Main
begin

section \<open>Data model\<close>

text \<open>
  The notebook keeps a Sudoku board in a Python dict from cell names (\<open>'A1'\<close> ...
  \<open>'I9'\<close>) to sets of candidate values, each value a string.  A dict iterates in
  insertion order and assigning to an existing key keeps its position, so a board is an
  association list.  A set of candidates is a list: its elements in the order in which
  the set iterates.  Removing an element keeps the others in place.  The constraint
  groups are a list of tuples of cell names.

  A lookup of a missing key raises \<open>KeyError\<close>, and \<open>next\<close> on an exhausted iterator
  raises \<open>StopIteration\<close>; both are values of the type \<open>error\<close>.
\<close>

type_synonym var = string
type_synonym val = string
type_synonym domain = "val list"
type_synonym board = "(var \<times> domain) list"
type_synonym constraints = "var list list"

datatype error = KeyError | StopIteration

text \<open>\<open>board[k]\<close>\<close>

definition getitem :: "board \<Rightarrow> var \<Rightarrow> error + domain" where
  "getitem b k = (case map_of b k of None \<Rightarrow> Inl KeyError | Some d \<Rightarrow> Inr d)"

text \<open>\<open>board[k] = d\<close>; also the effect on the board of mutating the set stored at \<open>k\<close>.\<close>

fun setitem :: "('k \<times> 'v) list \<Rightarrow> 'k \<Rightarrow> 'v \<Rightarrow> ('k \<times> 'v) list" where
  "setitem [] k d = [(k, d)]"
| "setitem ((k', d') # b) k d = (if k' = k then (k, d) # b else (k', d') # setitem b k d)"

text \<open>\<open>s.discard(x)\<close>\<close>

definition discard :: "val \<Rightarrow> domain \<Rightarrow> domain" where
  "discard x d = removeAll x d"

text \<open>The keys of a board, in iteration order.\<close>

definition keys :: "('k \<times> 'v) list \<Rightarrow> 'k list" where
  "keys b = map fst b"

text \<open>
  \<open>board[v]\<close> for \<open>v\<close> drawn from the board's own keys, where the lookup cannot fail.
\<close>

definition dom_of :: "board \<Rightarrow> var \<Rightarrow> domain" where
  "dom_of b v = (case map_of b v of None \<Rightarrow> [] | Some d \<Rightarrow> d)"

section \<open>The constraint groups\<close>

text \<open>
  \<open>generate_constraints\<close>: nine rows, nine columns and nine boxes, in this order.  A cell
  name is the row letter followed by the column digit.
\<close>

definition rows :: string where
  "rows = ''ABCDEFGHI''"

definition columns :: string where
  "columns = ''123456789''"

definition row_groups :: constraints where
  "row_groups = map (\<lambda>row. map (\<lambda>column. [row, column]) columns) rows"

definition column_groups :: constraints where
  "column_groups = map (\<lambda>column. map (\<lambda>row. [row, column]) rows) columns"

definition box_groups :: constraints where
  "box_groups =
     concat (map (\<lambda>i. map (\<lambda>j.
       concat (map (\<lambda>row. map (\<lambda>column. [row, column]) (take 3 (drop j columns)))
                   (take 3 (drop i rows))))
       [0, 3, 6]) [0, 3, 6])"

definition generate_constraints :: constraints where
  "generate_constraints = row_groups @ column_groups @ box_groups"

text \<open>The 81 cell names, row by row, as \<open>read_board\<close> inserts them.\<close>

definition cells :: "var list" where
  "cells = concat row_groups"

text \<open>A board of the data model: one entry for each of the 81 cells and no other.\<close>

definition is_board :: "board \<Rightarrow> bool" where
  "is_board b = (distinct (keys b) \<and> set (keys b) = set cells)"

section \<open>Local deduction rules\<close>

text \<open>
  \<open>naked_single\<close>: three nested loops.  The innermost one removes the single value of
  \<open>KeyVar\<close> from every other cell of the group; the value is read again at every step, as
  the source does.
\<close>

fun naked_single_delete :: "var \<Rightarrow> var list \<Rightarrow> board \<Rightarrow> error + board" where
  "naked_single_delete KeyVar [] b = Inr b"
| "naked_single_delete KeyVar (KeyXDelete # rest) b =
     (if KeyXDelete \<noteq> KeyVar then
        (case getitem b KeyXDelete of
           Inl e \<Rightarrow> Inl e
         | Inr dx \<Rightarrow>
             (case getitem b KeyVar of
                Inl e \<Rightarrow> Inl e
              | Inr [] \<Rightarrow> Inl StopIteration
              | Inr (x # _) \<Rightarrow>
                  naked_single_delete KeyVar rest (setitem b KeyXDelete (discard x dx))))
      else naked_single_delete KeyVar rest b)"

fun naked_single_group :: "var list \<Rightarrow> var list \<Rightarrow> board \<Rightarrow> error + board" where
  "naked_single_group const [] b = Inr b"
| "naked_single_group const (KeyVar # rest) b =
     (case getitem b KeyVar of
        Inl e \<Rightarrow> Inl e
      | Inr d \<Rightarrow>
          if length d = 1 then
            (case naked_single_delete KeyVar const b of
               Inl e \<Rightarrow> Inl e
             | Inr b' \<Rightarrow> naked_single_group const rest b')
          else naked_single_group const rest b)"

fun naked_single :: "board \<Rightarrow> constraints \<Rightarrow> error + board" where
  "naked_single b [] = Inr b"
| "naked_single b (const # rest) =
     (case naked_single_group const const b of
        Inl e \<Rightarrow> Inl e
      | Inr b' \<Rightarrow> naked_single b' rest)"

text \<open>
  \<open>hidden_single\<close>: for every group and every digit, count the cells of the group that
  still hold the digit and remember the last one; a digit held by exactly one cell
  becomes that cell's whole domain.
\<close>

definition digits :: "val list" where
  "digits = map (\<lambda>c. [c]) ''123456789''"

fun hidden_single_count ::
  "val \<Rightarrow> var list \<Rightarrow> board \<Rightarrow> nat \<times> var option \<Rightarrow> error + (nat \<times> var option)" where
  "hidden_single_count digit [] b (count, last_key) = Inr (count, last_key)"
| "hidden_single_count digit (KeyVar # rest) b (count, last_key) =
     (case getitem b KeyVar of
        Inl e \<Rightarrow> Inl e
      | Inr d \<Rightarrow>
          if digit \<in> set d then hidden_single_count digit rest b (count + 1, Some KeyVar)
          else hidden_single_count digit rest b (count, last_key))"

fun hidden_single_digits :: "var list \<Rightarrow> val list \<Rightarrow> board \<Rightarrow> error + board" where
  "hidden_single_digits const [] b = Inr b"
| "hidden_single_digits const (digit # rest) b =
     (case hidden_single_count digit const b (0, None) of
        Inl e \<Rightarrow> Inl e
      | Inr (count, last_key) \<Rightarrow>
          if count = 1 then
            (case last_key of
               None \<Rightarrow> hidden_single_digits const rest b
             | Some k \<Rightarrow> hidden_single_digits const rest (setitem b k [digit]))
          else hidden_single_digits const rest b)"

fun hidden_single :: "board \<Rightarrow> constraints \<Rightarrow> error + board" where
  "hidden_single b [] = Inr b"
| "hidden_single b (const # rest) =
     (case hidden_single_digits const digits b of
        Inl e \<Rightarrow> Inl e
      | Inr b' \<Rightarrow> hidden_single b' rest)"

section \<open>AC-3\<close>

text \<open>
  \<open>revise_arc_consistency\<close> walks a copy of \<open>Xi\<close>'s domain and discards from the live
  domain every value \<open>x\<close> for which no \<open>y\<close> in \<open>Xj\<close>'s domain differs from \<open>x\<close>.
\<close>

fun revise_loop :: "var \<Rightarrow> var \<Rightarrow> val list \<Rightarrow> board \<Rightarrow> bool \<Rightarrow> error + (board \<times> bool)" where
  "revise_loop Xi Xj [] b removed = Inr (b, removed)"
| "revise_loop Xi Xj (x # xs) b removed =
     (case getitem b Xj of
        Inl e \<Rightarrow> Inl e
      | Inr dj \<Rightarrow>
          if \<not> list_ex (\<lambda>y. x \<noteq> y) dj then
            (case getitem b Xi of
               Inl e \<Rightarrow> Inl e
             | Inr di \<Rightarrow> revise_loop Xi Xj xs (setitem b Xi (discard x di)) True)
          else revise_loop Xi Xj xs b removed)"

definition revise_arc_consistency :: "var \<Rightarrow> var \<Rightarrow> board \<Rightarrow> error + (board \<times> bool)" where
  "revise_arc_consistency Xi Xj b =
     (case getitem b Xi of
        Inl e \<Rightarrow> Inl e
      | Inr di \<Rightarrow> revise_loop Xi Xj di b False)"

text \<open>The initial worklist: every ordered pair of different cells of every group.\<close>

definition initial_queue :: "constraints \<Rightarrow> (var \<times> var) list" where
  "initial_queue cs =
     concat (map (\<lambda>const.
       concat (map (\<lambda>Xi. map (\<lambda>Xj. (Xi, Xj)) (filter (\<lambda>Xj. Xi \<noteq> Xj) const)) const)) cs)"

text \<open>The arcs appended after \<open>Xi\<close> lost a value through the arc \<open>(Xi, Xj)\<close>.\<close>

definition enqueue :: "var \<Rightarrow> var \<Rightarrow> constraints \<Rightarrow> (var \<times> var) list" where
  "enqueue Xi Xj cs =
     concat (map (\<lambda>const.
       if Xi \<in> set const
       then map (\<lambda>Xk. (Xk, Xi)) (filter (\<lambda>Xk. Xk \<noteq> Xi \<and> Xk \<noteq> Xj) const)
       else []) cs)"

text \<open>The sum of the domain sizes: what every successful revision decreases.\<close>

definition total_size :: "board \<Rightarrow> nat" where
  "total_size b = (\<Sum>k\<in>set (keys b). length (dom_of b k))"

subsection \<open>Facts about the board operations\<close>

lemma map_of_setitem: "map_of (setitem b k d) = (map_of b)(k \<mapsto> d)"
  by (induction b k d rule: setitem.induct) auto

lemma set_keys_setitem: "set (keys (setitem b k d)) = insert k (set (keys b))"
  unfolding keys_def
  by (induction b k d rule: setitem.induct) auto

lemma keys_setitem: "map_of b k = Some d0 \<Longrightarrow> keys (setitem b k d) = keys b"
  unfolding keys_def
  by (induction b k d rule: setitem.induct) (auto split: if_splits)

lemma map_of_Some_keys: "map_of b k = Some d \<Longrightarrow> k \<in> set (keys b)"
  unfolding keys_def by (metis map_of_eq_None_iff option.distinct(1) set_map)

lemma dom_of_setitem: "dom_of (setitem b k d) k' = (if k' = k then d else dom_of b k')"
  by (simp add: dom_of_def map_of_setitem)

lemma total_size_setitem:
  assumes "map_of b k = Some d0"
  shows "total_size (setitem b k d) + length d0 = total_size b + length d"
proof -
  have k: "k \<in> set (keys b)" using assms by (rule map_of_Some_keys)
  have d0: "dom_of b k = d0" using assms by (simp add: dom_of_def)
  let ?S = "set (keys b) - {k}"
  have S: "set (keys b) = insert k ?S" using k by auto
  have fin: "finite ?S" "k \<notin> ?S" by auto
  have a: "total_size b = length d0 + (\<Sum>x\<in>?S. length (dom_of b x))"
    unfolding total_size_def using sum.insert[OF fin, of "\<lambda>x. length (dom_of b x)"] S d0
    by simp
  have "set (keys (setitem b k d)) = insert k ?S"
    using k by (auto simp: set_keys_setitem)
  then have b: "total_size (setitem b k d) = length d + (\<Sum>x\<in>?S. length (dom_of (setitem b k d) x))"
    unfolding total_size_def using sum.insert[OF fin, of "\<lambda>x. length (dom_of (setitem b k d) x)"]
    by (simp add: dom_of_setitem)
  have "(\<Sum>x\<in>?S. length (dom_of (setitem b k d) x)) = (\<Sum>x\<in>?S. length (dom_of b x))"
    by (rule sum.cong) (auto simp: dom_of_setitem)
  with a b show ?thesis by simp
qed

lemma getitem_Inr: "getitem b k = Inr d \<longleftrightarrow> map_of b k = Some d"
  by (auto simp: getitem_def split: option.splits)

lemma getitem_Inl: "getitem b k = Inl e \<longleftrightarrow> map_of b k = None \<and> e = KeyError"
  by (auto simp: getitem_def split: option.splits)

lemma length_discard_le: "length (discard x d) \<le> length d"
  by (simp add: discard_def)

lemma length_discard_less: "x \<in> set d \<Longrightarrow> length (discard x d) < length d"
  unfolding discard_def by (simp add: length_removeAll_less)

lemma revise_loop_True: "revise_loop Xi Xj xs b True = Inr (b', r') \<Longrightarrow> r'"
  by (induction Xi Xj xs b "True" arbitrary: rule: revise_loop.induct)
     (auto split: sum.splits if_splits)

lemma revise_loop_total:
  "revise_loop Xi Xj xs b r = Inr (b', r') \<Longrightarrow> map_of b Xi = Some cur \<Longrightarrow>
   (\<not> r \<longrightarrow> set xs \<subseteq> set cur) \<Longrightarrow>
   total_size b' \<le> total_size b \<and> (r' \<and> \<not> r \<longrightarrow> total_size b' < total_size b) \<and> (\<not> r' \<longrightarrow> b' = b)"
proof (induction Xi Xj xs b r arbitrary: cur rule: revise_loop.induct)
  case (1 Xi Xj b removed)
  then show ?case by simp
next
  case (2 Xi Xj x xs b removed)
  from "2.prems"(1) obtain dj where dj: "getitem b Xj = Inr dj"
    by (auto split: sum.splits)
  show ?case
  proof (cases "list_ex (\<lambda>y. x \<noteq> y) dj")
    case True
    with "2.prems" dj have run: "revise_loop Xi Xj xs b removed = Inr (b', r')"
      by simp
    from "2.prems"(3) have "\<not> removed \<longrightarrow> set xs \<subseteq> set cur" by auto
    from "2.IH"(2)[OF dj _ run "2.prems"(2) this] True show ?thesis by simp
  next
    case False
    have di: "getitem b Xi = Inr cur" using "2.prems"(2) by (simp add: getitem_Inr)
    let ?b1 = "setitem b Xi (discard x cur)"
    from "2.prems"(1) dj False di have run: "revise_loop Xi Xj xs ?b1 True = Inr (b', r')"
      by simp
    have m1: "map_of ?b1 Xi = Some (discard x cur)" by (simp add: map_of_setitem)
    from "2.IH"(1)[OF dj _ di run m1] False
    have ih: "total_size b' \<le> total_size ?b1" by simp
    have t1: "total_size ?b1 + length cur = total_size b + length (discard x cur)"
      using total_size_setitem[OF "2.prems"(2)] by simp
    have le: "total_size ?b1 \<le> total_size b" using t1 length_discard_le[of x cur] by linarith
    have lt: "\<not> removed \<Longrightarrow> total_size ?b1 < total_size b"
    proof -
      assume "\<not> removed"
      with "2.prems"(3) have "x \<in> set cur" by auto
      from length_discard_less[OF this] t1 show ?thesis by linarith
    qed
    have r': "r'" using run by (rule revise_loop_True)
    show ?thesis using ih le lt r' by auto
  qed
qed

lemma revise_total:
  assumes "revise_arc_consistency Xi Xj b = Inr (b', r')"
  shows "(r' \<longrightarrow> total_size b' < total_size b) \<and> (\<not> r' \<longrightarrow> b' = b)"
proof -
  from assms obtain di where di: "getitem b Xi = Inr di"
    and run: "revise_loop Xi Xj di b False = Inr (b', r')"
    by (auto simp: revise_arc_consistency_def split: sum.splits)
  from di have "map_of b Xi = Some di" by (simp add: getitem_Inr)
  from revise_loop_total[OF run this] show ?thesis by auto
qed


text \<open>
  The worklist loop of \<open>ac3\<close>.  It ends because a revision that removes a value makes
  the sum of the domain sizes smaller, and every other step makes the worklist shorter.
\<close>

function ac3_loop :: "(var \<times> var) list \<Rightarrow> board \<Rightarrow> constraints \<Rightarrow> error + (board \<times> bool)" where
  "ac3_loop [] b cs = Inr (b, True)"
| "ac3_loop ((Xi, Xj) # queue) b cs =
     (case revise_arc_consistency Xi Xj b of
        Inl e \<Rightarrow> Inl e
      | Inr (b', removed) \<Rightarrow>
          if removed then
            (case getitem b' Xi of
               Inl e \<Rightarrow> Inl e
             | Inr di \<Rightarrow>
                 if length di = 0 then Inr (b', False)
                 else ac3_loop (queue @ enqueue Xi Xj cs) b' cs)
          else ac3_loop queue b' cs)"
  by pat_completeness auto
termination
proof (relation "measures [\<lambda>(q, b, cs). total_size b, \<lambda>(q, b, cs). length q]")
  show "wf (measures [\<lambda>(q, b, cs). total_size b, \<lambda>(q, b, cs). length q])" by simp
next
  fix Xi Xj :: var and queue :: "(var \<times> var) list" and b :: board and cs :: constraints and x2 x1 x2a x2b
  assume "revise_arc_consistency Xi Xj b = Inr x2" "(x1, x2a) = x2" "x2a"
  then show "((queue @ enqueue Xi Xj cs, x1, cs), (Xi, Xj) # queue, b, cs)
       \<in> measures [\<lambda>(q, b, cs). total_size b, \<lambda>(q, b, cs). length q]"
    using revise_total[of Xi Xj b x1 x2a] by auto
next
  fix Xi Xj :: var and queue :: "(var \<times> var) list" and b :: board and cs :: constraints and x2 x1 x2a
  assume "revise_arc_consistency Xi Xj b = Inr x2" "(x1, x2a) = x2" "\<not> x2a"
  then show "((queue, x1, cs), (Xi, Xj) # queue, b, cs)
       \<in> measures [\<lambda>(q, b, cs). total_size b, \<lambda>(q, b, cs). length q]"
    using revise_total[of Xi Xj b x1 x2a] by auto
qed

definition ac3 :: "board \<Rightarrow> constraints \<Rightarrow> error + (board \<times> bool)" where
  "ac3 b cs = ac3_loop (initial_queue cs) b cs"

section \<open>Variable selection\<close>

text \<open>
  Python's \<open>min(it, key=f, default=None)\<close> returns the first element whose key is the
  least, and \<open>max\<close> the first whose key is the greatest.  Both heuristics scan the
  board's keys and look each one up in the board.
\<close>

fun py_min :: "('a \<Rightarrow> nat) \<Rightarrow> 'a list \<Rightarrow> 'a option" where
  "py_min key [] = None"
| "py_min key (x # xs) = Some (foldl (\<lambda>best y. if key y < key best then y else best) x xs)"

fun py_max :: "('a \<Rightarrow> nat) \<Rightarrow> 'a list \<Rightarrow> 'a option" where
  "py_max key [] = None"
| "py_max key (x # xs) = Some (foldl (\<lambda>best y. if key y > key best then y else best) x xs)"

definition mrv :: "board \<Rightarrow> var option" where
  "mrv b = py_min (\<lambda>x. length (dom_of b x)) (filter (\<lambda>v. length (dom_of b v) > 1) (keys b))"

definition degree_heuristic :: "board \<Rightarrow> constraints \<Rightarrow> var option" where
  "degree_heuristic b cs =
     py_max (\<lambda>x. length (filter (\<lambda>c. x \<in> set c) cs))
            (filter (\<lambda>v. length (dom_of b v) > 1) (keys b))"

section \<open>Backtracking search\<close>

text \<open>\<open>all(len(board[var]) == 1 for var in board)\<close>\<close>

definition is_board_complete :: "board \<Rightarrow> bool" where
  "is_board_complete b = list_all (\<lambda>var. length (dom_of b var) = 1) (keys b)"

text \<open>
  \<open>mrv(board) or degree_heuristic(board, constraints)\<close>: Python's \<open>or\<close> returns its
  left operand when it is truthy, and \<open>None\<close> and the empty string are falsy.
\<close>

definition truthy :: "var option \<Rightarrow> bool" where
  "truthy v = (case v of None \<Rightarrow> False | Some s \<Rightarrow> s \<noteq> [])"

definition py_or :: "var option \<Rightarrow> var option \<Rightarrow> var option" where
  "py_or x y = (if truthy x then x else y)"

text \<open>
  \<open>{v: board[v].copy() for v in board}\<close>: a new dict filled key by key.
\<close>

definition copy_board :: "board \<Rightarrow> board" where
  "copy_board b = foldl (\<lambda>acc v. setitem acc v (dom_of b v)) [] (keys b)"

text \<open>
  The loop \<open>for value in board[var].copy()\<close> of \<open>solve\<close>, which leaves at the first
  value whose branch yields a solution.
\<close>

fun try_values :: "(val \<Rightarrow> error + board option) \<Rightarrow> val list \<Rightarrow> error + board option" where
  "try_values body [] = Inr None"
| "try_values body (vl # rest) =
     (case body vl of
        Inl e \<Rightarrow> Inl e
      | Inr (Some solution) \<Rightarrow> Inr (Some solution)
      | Inr None \<Rightarrow> try_values body rest)"

lemma try_values_cong [fundef_cong]:
  "xs = ys \<Longrightarrow> (\<And>x. x \<in> set ys \<Longrightarrow> f x = g x) \<Longrightarrow> try_values f xs = try_values g ys"
  by (induction ys arbitrary: xs) (auto split: sum.splits option.splits)

lemma foldl_pick_mem: "foldl (\<lambda>best y. if P y best then y else best) x xs \<in> set (x # xs)"
  by (induction xs arbitrary: x) auto

lemma py_min_mem: "py_min key xs = Some v \<Longrightarrow> v \<in> set xs"
  using foldl_pick_mem[of "\<lambda>y best. key y < key best"] by (cases xs) auto

lemma py_max_mem: "py_max key xs = Some v \<Longrightarrow> v \<in> set xs"
  using foldl_pick_mem[of "\<lambda>y best. key y > key best"] by (cases xs) auto

lemma mrv_Some: "mrv b = Some v \<Longrightarrow> v \<in> set (keys b) \<and> 1 < length (dom_of b v)"
  unfolding mrv_def by (drule py_min_mem) simp

lemma degree_heuristic_Some:
  "degree_heuristic b cs = Some v \<Longrightarrow> v \<in> set (keys b) \<and> 1 < length (dom_of b v)"
  unfolding degree_heuristic_def by (drule py_max_mem) simp

lemma py_or_Some:
  "py_or (mrv b) (degree_heuristic b cs) = Some v \<Longrightarrow> v \<in> set (keys b) \<and> 1 < length (dom_of b v)"
  unfolding py_or_def using mrv_Some degree_heuristic_Some by (auto split: if_splits)

lemma map_of_foldl_setitem:
  "map_of (foldl (\<lambda>acc v. setitem acc v (f v)) acc ks) k =
     (if k \<in> set ks then Some (f k) else map_of acc k)"
  by (induction ks arbitrary: acc) (auto simp: map_of_setitem)

lemma set_keys_foldl_setitem:
  "set (keys (foldl (\<lambda>acc v. setitem acc v (f v)) acc ks)) = set (keys acc) \<union> set ks"
  by (induction ks arbitrary: acc) (auto simp: set_keys_setitem)

lemma keys_Nil [simp]: "keys [] = []"
  by (simp add: keys_def)

lemma map_of_None_keys: "map_of b k = None \<longleftrightarrow> k \<notin> set (keys b)"
  unfolding keys_def by (simp add: map_of_eq_None_iff)

lemma map_of_copy_board: "map_of (copy_board b) = map_of b"
proof
  fix k
  show "map_of (copy_board b) k = map_of b k"
  proof (cases "k \<in> set (keys b)")
    case True
    then obtain d where "map_of b k = Some d"
      using map_of_None_keys[of b k] by (cases "map_of b k") auto
    with True show ?thesis
      by (simp add: copy_board_def map_of_foldl_setitem dom_of_def)
  next
    case False
    then have "map_of b k = None" by (simp add: map_of_None_keys)
    with False show ?thesis
      by (simp add: copy_board_def map_of_foldl_setitem)
  qed
qed

lemma set_keys_copy_board: "set (keys (copy_board b)) = set (keys b)"
  by (simp add: copy_board_def set_keys_foldl_setitem)

lemma dom_of_copy_board: "dom_of (copy_board b) = dom_of b"
  by (rule ext) (simp add: dom_of_def map_of_copy_board)

lemma total_size_copy_board: "total_size (copy_board b) = total_size b"
  by (simp add: total_size_def set_keys_copy_board dom_of_copy_board)

lemma ac3_loop_total: "ac3_loop q b cs = Inr (b', r) \<Longrightarrow> total_size b' \<le> total_size b"
proof (induction q b cs rule: ac3_loop.induct)
  case (1 b cs)
  then show ?case by simp
next
  case (2 Xi Xj queue b cs)
  from "2.prems" obtain b1 removed where rv: "revise_arc_consistency Xi Xj b = Inr (b1, removed)"
    by (auto split: sum.splits)
  note rt = revise_total[OF rv]
  show ?case
  proof (cases removed)
    case True
    with "2.prems" rv obtain di where di: "getitem b1 Xi = Inr di"
      by (auto split: sum.splits)
    show ?thesis
    proof (cases "length di = 0")
      case True
      with "2.prems" rv di \<open>removed\<close> rt show ?thesis by auto
    next
      case False
      with "2.prems" rv di \<open>removed\<close>
      have "ac3_loop (queue @ enqueue Xi Xj cs) b1 cs = Inr (b', r)" by simp
      from "2.IH"(1)[OF rv refl \<open>removed\<close> di False this] rt \<open>removed\<close> show ?thesis by simp
    qed
  next
    case False
    with "2.prems" rv have "ac3_loop queue b1 cs = Inr (b', r)" by simp
    from "2.IH"(2)[OF rv refl False this] rt False show ?thesis by simp
  qed
qed

text \<open>
  \<open>solve\<close>.  The trace printed under \<open>verbose\<close> does not reach the result and is left
  out.  A dict is truthy when it is not empty, which is what \<open>if solution\<close> tests.  The
  recursion ends because the board passed down has a smaller sum of domain sizes: the
  chosen cell had more than one value and keeps one, and \<open>ac3\<close> never adds a value.
\<close>

function solve :: "board \<Rightarrow> constraints \<Rightarrow> error + board option" where
  "solve b cs =
     (if is_board_complete b then Inr (Some b)
      else
        (case py_or (mrv b) (degree_heuristic b cs) of
           None \<Rightarrow> Inr None
         | Some var \<Rightarrow>
             if var = [] then Inr None
             else
               (case getitem b var of
                  Inl e \<Rightarrow> Inl e
                | Inr d \<Rightarrow>
                    try_values (\<lambda>vl.
                      (case ac3 (setitem (copy_board b) var [vl]) cs of
                         Inl e \<Rightarrow> Inl e
                       | Inr (board_copy, consistent) \<Rightarrow>
                           if consistent then
                             (case solve board_copy cs of
                                Inl e \<Rightarrow> Inl e
                              | Inr None \<Rightarrow> Inr None
                              | Inr (Some solution) \<Rightarrow>
                                  if solution \<noteq> [] then Inr (Some solution) else Inr None)
                           else Inr None)) d)))"
  by pat_completeness auto
termination
proof (relation "measure (\<lambda>(b, cs). total_size b)")
  show "wf (measure (\<lambda>(b, cs). total_size b))" by simp
next
  fix b :: board and cs :: constraints and var d vl x2 board_copy consistent
  assume sel: "py_or (mrv b) (degree_heuristic b cs) = Some var"
    and d: "getitem b var = Inr d"
    and run: "ac3 (setitem (copy_board b) var [vl]) cs = Inr x2"
    and x2: "(board_copy, consistent) = x2"
  from py_or_Some[OF sel] have len: "1 < length (dom_of b var)" by simp
  from d have m: "map_of (copy_board b) var = Some d"
    by (simp add: getitem_Inr map_of_copy_board)
  from d have dd: "dom_of b var = d" by (simp add: getitem_Inr dom_of_def)
  from total_size_setitem[OF m, of "[vl]"] len dd
  have "total_size (setitem (copy_board b) var [vl]) < total_size b"
    by (simp add: total_size_copy_board)
  moreover from run x2 have "total_size board_copy \<le> total_size (setitem (copy_board b) var [vl])"
    unfolding ac3_def by (auto dest: ac3_loop_total)
  ultimately show "((board_copy, cs), b, cs) \<in> measure (\<lambda>(b, cs). total_size b)"
    by simp
qed

declare solve.simps [simp del]

section \<open>Properties of AC-3\<close>

text \<open>
  The vocabulary of the proofs.  A value of \<open>Xi\<close> is supported by \<open>Xj\<close> when \<open>Xj\<close> holds
  a different value; \<open>revised b Xi Xj\<close> is the board after the revision of the arc
  \<open>(Xi, Xj)\<close>; the arcs of a worklist join two different cells of one group; and the
  groups are well formed for a board when they mention its keys only.
\<close>

definition supported :: "domain \<Rightarrow> val \<Rightarrow> bool" where
  "supported dj x = list_ex (\<lambda>y. x \<noteq> y) dj"

definition revised :: "board \<Rightarrow> var \<Rightarrow> var \<Rightarrow> board" where
  "revised b Xi Xj = setitem b Xi (filter (supported (dom_of b Xj)) (dom_of b Xi))"

definition group_arcs :: "constraints \<Rightarrow> (var \<times> var) list \<Rightarrow> bool" where
  "group_arcs cs q = list_all (\<lambda>(x, y). x \<noteq> y \<and> list_ex (\<lambda>c. x \<in> set c \<and> y \<in> set c) cs) q"

definition wf_groups :: "board \<Rightarrow> constraints \<Rightarrow> bool" where
  "wf_groups b cs = list_all (\<lambda>c. list_all (\<lambda>v. v \<in> set (keys b)) c) cs"

lemma setitem_same: "map_of b k = Some d \<Longrightarrow> setitem b k d = b"
  by (induction b k d rule: setitem.induct) (auto split: if_splits)

lemma setitem_setitem: "setitem (setitem b k d1) k d2 = setitem b k d2"
  by (induction b k d1 rule: setitem.induct) auto

lemma keys_map_of: "k \<in> set (keys b) \<Longrightarrow> map_of b k = Some (dom_of b k)"
  using map_of_None_keys[of b k] by (cases "map_of b k") (auto simp: dom_of_def)

lemma dom_of_Some: "map_of b k = Some d \<Longrightarrow> dom_of b k = d"
  by (simp add: dom_of_def)

lemma revise_loop_char:
  assumes "Xi \<noteq> Xj" "map_of b Xj = Some dj" "map_of b Xi = Some cur"
  shows "revise_loop Xi Xj xs b r =
           Inr (setitem b Xi (filter (\<lambda>z. z \<notin> set xs \<or> supported dj z) cur),
                r \<or> (\<exists>x\<in>set xs. \<not> supported dj x))"
  using assms
proof (induction xs arbitrary: b cur r)
  case Nil
  then show ?case by (simp add: setitem_same)
next
  case (Cons x xs)
  have gj: "getitem b Xj = Inr dj" and gi: "getitem b Xi = Inr cur"
    using Cons.prems by (simp_all add: getitem_Inr)
  show ?case
  proof (cases "supported dj x")
    case True
    then have run: "revise_loop Xi Xj (x # xs) b r = revise_loop Xi Xj xs b r"
      using gj by (simp add: supported_def)
    have "filter (\<lambda>z. z \<notin> set (x # xs) \<or> supported dj z) cur =
          filter (\<lambda>z. z \<notin> set xs \<or> supported dj z) cur"
      by (rule filter_cong) (use True in auto)
    with run Cons.IH[OF Cons.prems] True show ?thesis by auto
  next
    case False
    let ?b1 = "setitem b Xi (discard x cur)"
    have run: "revise_loop Xi Xj (x # xs) b r = revise_loop Xi Xj xs ?b1 True"
      using gj gi False by (simp add: supported_def)
    have mj: "map_of ?b1 Xj = Some dj" using Cons.prems by (simp add: map_of_setitem)
    have mi: "map_of ?b1 Xi = Some (discard x cur)" by (simp add: map_of_setitem)
    have f: "filter (\<lambda>z. z \<notin> set xs \<or> supported dj z) (discard x cur) =
          filter (\<lambda>z. z \<notin> set (x # xs) \<or> supported dj z) cur"
      unfolding discard_def removeAll_filter_not_eq filter_filter
      by (rule filter_cong) (use False in auto)
    show ?thesis
      unfolding run Cons.IH[OF Cons.prems(1) mj mi] setitem_setitem f using False by auto
  qed
qed

lemma revise_char:
  assumes "Xi \<noteq> Xj" "Xi \<in> set (keys b)" "Xj \<in> set (keys b)"
  shows "revise_arc_consistency Xi Xj b = Inr (revised b Xi Xj, revised b Xi Xj \<noteq> b)"
proof -
  let ?di = "dom_of b Xi" and ?dj = "dom_of b Xj"
  have mi: "map_of b Xi = Some ?di" and mj: "map_of b Xj = Some ?dj"
    using assms by (simp_all add: keys_map_of)
  have f: "filter (\<lambda>z. z \<notin> set ?di \<or> supported ?dj z) ?di = filter (supported ?dj) ?di"
    by (rule filter_cong) auto
  have neq: "(revised b Xi Xj \<noteq> b) = (\<exists>x\<in>set ?di. \<not> supported ?dj x)"
  proof
    assume "revised b Xi Xj \<noteq> b"
    then have "filter (supported ?dj) ?di \<noteq> ?di"
      using setitem_same[OF mi] by (auto simp: revised_def)
    then show "\<exists>x\<in>set ?di. \<not> supported ?dj x" by (metis filter_True)
  next
    assume "\<exists>x\<in>set ?di. \<not> supported ?dj x"
    then have "filter (supported ?dj) ?di \<noteq> ?di" by (metis filter_id_conv)
    moreover have "dom_of (revised b Xi Xj) Xi = filter (supported ?dj) ?di"
      by (simp add: revised_def dom_of_setitem)
    ultimately show "revised b Xi Xj \<noteq> b" by auto
  qed
  show ?thesis
    unfolding revise_arc_consistency_def
    using mi revise_loop_char[OF assms(1) mj mi, of ?di False] f neq
    by (simp add: getitem_def revised_def)
qed

lemma keys_revised: "Xi \<in> set (keys b) \<Longrightarrow> keys (revised b Xi Xj) = keys b"
  unfolding revised_def by (rule keys_setitem[OF keys_map_of])

lemma dom_of_revised:
  "dom_of (revised b Xi Xj) k =
     (if k = Xi then filter (supported (dom_of b Xj)) (dom_of b Xi) else dom_of b k)"
  by (simp add: revised_def dom_of_setitem)

lemma ac3_loop_step:
  assumes "Xi \<noteq> Xj" "Xi \<in> set (keys b)" "Xj \<in> set (keys b)"
  shows "ac3_loop ((Xi, Xj) # q) b cs =
     (if revised b Xi Xj \<noteq> b then
        if dom_of (revised b Xi Xj) Xi = [] then Inr (revised b Xi Xj, False)
        else ac3_loop (q @ enqueue Xi Xj cs) (revised b Xi Xj) cs
      else ac3_loop q b cs)"
proof -
  have "Xi \<in> set (keys (revised b Xi Xj))" using assms by (simp add: keys_revised)
  then have "getitem (revised b Xi Xj) Xi = Inr (dom_of (revised b Xi Xj) Xi)"
    by (simp add: getitem_Inr keys_map_of)
  then show ?thesis
    using revise_char[OF assms] by auto
qed

lemma group_arcs_enqueue: "group_arcs cs (enqueue Xi Xj cs)"
  unfolding group_arcs_def enqueue_def list_all_iff list_ex_iff by auto

lemma group_arcs_initial: "group_arcs cs (initial_queue cs)"
  unfolding group_arcs_def initial_queue_def list_all_iff list_ex_iff by auto

lemma in_initial_queue:
  "(x, y) \<in> set (initial_queue cs) \<longleftrightarrow> x \<noteq> y \<and> (\<exists>c\<in>set cs. x \<in> set c \<and> y \<in> set c)"
  unfolding initial_queue_def by auto

lemma in_enqueue:
  "(x, y) \<in> set (enqueue Xi Xj cs) \<longleftrightarrow>
     y = Xi \<and> x \<noteq> Xi \<and> x \<noteq> Xj \<and> (\<exists>c\<in>set cs. x \<in> set c \<and> Xi \<in> set c)"
  unfolding enqueue_def by auto

lemma group_arcs_Cons:
  "group_arcs cs ((x, y) # q) \<longleftrightarrow>
     x \<noteq> y \<and> (\<exists>c\<in>set cs. x \<in> set c \<and> y \<in> set c) \<and> group_arcs cs q"
  by (simp add: group_arcs_def list_ex_iff)

lemma group_arcs_append: "group_arcs cs (q @ q') \<longleftrightarrow> group_arcs cs q \<and> group_arcs cs q'"
  by (simp add: group_arcs_def)

lemma wf_groups_mem: "wf_groups b cs \<Longrightarrow> c \<in> set cs \<Longrightarrow> x \<in> set c \<Longrightarrow> x \<in> set (keys b)"
  by (auto simp: wf_groups_def list_all_iff)

lemma ac3_loop_rule_aux:
  assumes "wf_groups b cs" and "group_arcs cs q" and "I q b"
    and "\<forall>Xi Xj q b. wf_groups b cs \<and> group_arcs cs ((Xi, Xj) # q) \<and> I ((Xi, Xj) # q) b \<and>
               revised b Xi Xj = b \<longrightarrow> I q b"
    and "\<forall>Xi Xj q b. wf_groups b cs \<and> group_arcs cs ((Xi, Xj) # q) \<and> I ((Xi, Xj) # q) b \<and>
               revised b Xi Xj \<noteq> b \<and> dom_of (revised b Xi Xj) Xi \<noteq> [] \<longrightarrow>
               I (q @ enqueue Xi Xj cs) (revised b Xi Xj)"
    and "\<forall>Xi Xj q b. wf_groups b cs \<and> group_arcs cs ((Xi, Xj) # q) \<and> I ((Xi, Xj) # q) b \<and>
               revised b Xi Xj \<noteq> b \<and> dom_of (revised b Xi Xj) Xi = [] \<longrightarrow>
               Q (revised b Xi Xj) False"
    and "\<forall>b. wf_groups b cs \<and> I [] b \<longrightarrow> Q b True"
  shows "\<exists>b' r. ac3_loop q b cs = Inr (b', r) \<and> Q b' r"
  using assms
proof (induction q b cs rule: ac3_loop.induct)
  case (1 b cs)
  from "1.prems"(7) "1.prems"(1,3) have "Q b True" by blast
  then show ?case by auto
next
  case (2 Xi Xj queue b cs)
  note wf = "2.prems"(1) and pr = "2.prems"(2) and inv = "2.prems"(3)
    and same = "2.prems"(4) and shrink = "2.prems"(5) and fail = "2.prems"(6)
    and fin = "2.prems"(7)
  from pr wf have arc: "Xi \<noteq> Xj" "Xi \<in> set (keys b)" "Xj \<in> set (keys b)"
    and prq: "group_arcs cs queue"
    by (auto simp: group_arcs_Cons dest: wf_groups_mem)
  note step = ac3_loop_step[OF arc, of queue cs]
  note rc = revise_char[OF arc]
  let ?b1 = "revised b Xi Xj"
  have k1: "keys ?b1 = keys b" using arc by (simp add: keys_revised)
  show ?case
  proof (cases "?b1 = b")
    case True
    have "I queue b" using same wf pr inv True by blast
    then have i: "I queue ?b1" unfolding True .
    have w: "wf_groups ?b1 cs" and n: "\<not> ?b1 \<noteq> b"
      using wf prq True by simp_all
    from "2.IH"(2)[OF rc refl n w prq i same shrink fail fin]
    obtain b' r where run: "ac3_loop queue ?b1 cs = Inr (b', r)" and q: "Q b' r" by blast
    from run have "ac3_loop queue b cs = Inr (b', r)" unfolding True .
    moreover have "ac3_loop ((Xi, Xj) # queue) b cs = ac3_loop queue b cs"
      unfolding step using n by (simp only: if_False)
    ultimately show ?thesis using q by (simp only: sum.inject) blast
  next
    case False
    show ?thesis
    proof (cases "dom_of ?b1 Xi = []")
      case True
      have "ac3_loop ((Xi, Xj) # queue) b cs = Inr (?b1, False)"
        unfolding step using False True by simp
      moreover have "Q ?b1 False" using fail wf pr inv False True by blast
      ultimately show ?thesis by blast
    next
      case nonempty: False
      have i: "I (queue @ enqueue Xi Xj cs) ?b1"
        using shrink wf pr inv False nonempty by blast
      have w: "wf_groups ?b1 cs" using wf unfolding wf_groups_def k1 .
      have p: "group_arcs cs (queue @ enqueue Xi Xj cs)"
        using prq by (simp add: group_arcs_append group_arcs_enqueue)
      have g: "getitem ?b1 Xi = Inr (dom_of ?b1 Xi)"
        using arc k1 by (simp add: getitem_Inr keys_map_of)
      have ne: "length (dom_of ?b1 Xi) \<noteq> 0" using nonempty by simp
      have "ac3_loop ((Xi, Xj) # queue) b cs = ac3_loop (queue @ enqueue Xi Xj cs) ?b1 cs"
        unfolding step using False nonempty by simp
      with "2.IH"(1)[OF rc refl False g ne w p i same shrink fail fin]
      show ?thesis by (simp only:)
    qed
  qed
qed

lemma ac3_loop_rule:
  assumes wf: "wf_groups b cs" and pr: "group_arcs cs q"
    and inv: "I q b"
    and same: "\<And>Xi Xj q b. wf_groups b cs \<Longrightarrow> group_arcs cs ((Xi, Xj) # q) \<Longrightarrow> I ((Xi, Xj) # q) b \<Longrightarrow>
               revised b Xi Xj = b \<Longrightarrow> I q b"
    and shrink: "\<And>Xi Xj q b. wf_groups b cs \<Longrightarrow> group_arcs cs ((Xi, Xj) # q) \<Longrightarrow> I ((Xi, Xj) # q) b \<Longrightarrow>
               revised b Xi Xj \<noteq> b \<Longrightarrow> dom_of (revised b Xi Xj) Xi \<noteq> [] \<Longrightarrow>
               I (q @ enqueue Xi Xj cs) (revised b Xi Xj)"
    and fail: "\<And>Xi Xj q b. wf_groups b cs \<Longrightarrow> group_arcs cs ((Xi, Xj) # q) \<Longrightarrow> I ((Xi, Xj) # q) b \<Longrightarrow>
               revised b Xi Xj \<noteq> b \<Longrightarrow> dom_of (revised b Xi Xj) Xi = [] \<Longrightarrow>
               Q (revised b Xi Xj) False"
    and fin: "\<And>b. wf_groups b cs \<Longrightarrow> I [] b \<Longrightarrow> Q b True"
  shows "\<exists>b' r. ac3_loop q b cs = Inr (b', r) \<and> Q b' r"
proof (rule ac3_loop_rule_aux[where I = I and Q = Q, OF wf pr inv])
qed (use same shrink fail fin in blast)+

definition picks :: "board \<Rightarrow> (var \<Rightarrow> val) \<Rightarrow> bool" where
  "picks b \<sigma> = (\<forall>v\<in>set (keys b). \<sigma> v \<in> set (dom_of b v))"

definition satisfies :: "constraints \<Rightarrow> (var \<Rightarrow> val) \<Rightarrow> bool" where
  "satisfies cs \<sigma> = (\<forall>c\<in>set cs. \<forall>x\<in>set c. \<forall>y\<in>set c. x \<noteq> y \<longrightarrow> \<sigma> x \<noteq> \<sigma> y)"

definition consistent_arc :: "board \<Rightarrow> var \<Rightarrow> var \<Rightarrow> bool" where
  "consistent_arc b x y = list_all (supported (dom_of b y)) (dom_of b x)"

definition arc_consistent :: "board \<Rightarrow> constraints \<Rightarrow> bool" where
  "arc_consistent b cs = list_all (\<lambda>(x, y). consistent_arc b x y) (initial_queue cs)"

lemma supported_iff: "supported dj x \<longleftrightarrow> (\<exists>y\<in>set dj. x \<noteq> y)"
  by (simp add: supported_def list_ex_iff)

lemma revised_same_iff:
  assumes "Xi \<in> set (keys b)"
  shows "revised b Xi Xj = b \<longleftrightarrow> consistent_arc b Xi Xj"
proof
  assume "revised b Xi Xj = b"
  then have "dom_of (revised b Xi Xj) Xi = dom_of b Xi" by simp
  then have "filter (supported (dom_of b Xj)) (dom_of b Xi) = dom_of b Xi"
    by (simp add: dom_of_revised)
  then show "consistent_arc b Xi Xj"
    unfolding consistent_arc_def list_all_iff by (metis filter_id_conv)
next
  assume "consistent_arc b Xi Xj"
  then have "filter (supported (dom_of b Xj)) (dom_of b Xi) = dom_of b Xi"
    unfolding consistent_arc_def list_all_iff by (metis filter_id_conv)
  then show "revised b Xi Xj = b"
    unfolding revised_def using setitem_same[OF keys_map_of[OF assms]] by simp
qed

lemma set_dom_of_revised: "set (dom_of (revised b Xi Xj) k) \<subseteq> set (dom_of b k)"
  by (auto simp: dom_of_revised)

text \<open>Total correctness of the loop, with the frame: same keys, smaller domains.\<close>

lemma ac3_loop_shrinks:
  assumes "wf_groups b cs" and "group_arcs cs q"
  shows "\<exists>b' r. ac3_loop q b cs = Inr (b', r) \<and> keys b' = keys b \<and>
           (\<forall>v. set (dom_of b' v) \<subseteq> set (dom_of b v))"
proof (rule ac3_loop_rule[where I = "\<lambda>q b'. keys b' = keys b \<and> (\<forall>v. set (dom_of b' v) \<subseteq> set (dom_of b v))"
      and Q = "\<lambda>b' r. keys b' = keys b \<and> (\<forall>v. set (dom_of b' v) \<subseteq> set (dom_of b v))", OF assms])
  fix Xi Xj q b1
  assume wf: "wf_groups b1 cs" and ga: "group_arcs cs ((Xi, Xj) # q)"
    and I: "keys b1 = keys b \<and> (\<forall>v. set (dom_of b1 v) \<subseteq> set (dom_of b v))"
  from ga wf have "Xi \<in> set (keys b1)" by (auto simp: group_arcs_Cons dest: wf_groups_mem)
  then have "keys (revised b1 Xi Xj) = keys b1" by (rule keys_revised)
  moreover have "\<forall>v. set (dom_of (revised b1 Xi Xj) v) \<subseteq> set (dom_of b v)"
    using I set_dom_of_revised[of b1 Xi Xj] by blast
  ultimately show "keys (revised b1 Xi Xj) = keys b \<and> (\<forall>v. set (dom_of (revised b1 Xi Xj) v) \<subseteq> set (dom_of b v))"
    "keys (revised b1 Xi Xj) = keys b \<and> (\<forall>v. set (dom_of (revised b1 Xi Xj) v) \<subseteq> set (dom_of b v))"
    using I by simp_all
qed simp_all

lemma ac3_loop_sound:
  assumes "wf_groups b cs" and "group_arcs cs q" and "picks b \<sigma>" and sat: "satisfies cs \<sigma>"
  shows "\<exists>b' r. ac3_loop q b cs = Inr (b', r) \<and> picks b' \<sigma> \<and> r"
proof (rule ac3_loop_rule[where I = "\<lambda>q b'. picks b' \<sigma>" and Q = "\<lambda>b' r. picks b' \<sigma> \<and> r",
      OF assms(1,2,3)])
  fix Xi Xj q b1
  assume wf: "wf_groups b1 cs" and ga: "group_arcs cs ((Xi, Xj) # q)" and I: "picks b1 \<sigma>"
  from ga wf obtain c where arc: "Xi \<noteq> Xj" "Xi \<in> set (keys b1)" "Xj \<in> set (keys b1)"
    and c: "c \<in> set cs" "Xi \<in> set c" "Xj \<in> set c"
    by (auto simp: group_arcs_Cons dest: wf_groups_mem)
  from sat c arc(1) have ne: "\<sigma> Xi \<noteq> \<sigma> Xj" unfolding satisfies_def by blast
  from I arc have "\<sigma> Xj \<in> set (dom_of b1 Xj)" "\<sigma> Xi \<in> set (dom_of b1 Xi)"
    unfolding picks_def by auto
  with ne have keep: "\<sigma> Xi \<in> set (dom_of (revised b1 Xi Xj) Xi)"
    by (auto simp: dom_of_revised supported_iff)
  have p: "picks (revised b1 Xi Xj) \<sigma>"
    unfolding picks_def keys_revised[OF arc(2)]
  proof
    fix v assume "v \<in> set (keys b1)"
    with I have "\<sigma> v \<in> set (dom_of b1 v)" unfolding picks_def by blast
    with keep show "\<sigma> v \<in> set (dom_of (revised b1 Xi Xj) v)"
      by (cases "v = Xi") (auto simp: dom_of_revised)
  qed
  show "revised b1 Xi Xj \<noteq> b1 \<Longrightarrow> dom_of (revised b1 Xi Xj) Xi \<noteq> [] \<Longrightarrow> picks (revised b1 Xi Xj) \<sigma>"
    using p by simp
  show "revised b1 Xi Xj \<noteq> b1 \<Longrightarrow> dom_of (revised b1 Xi Xj) Xi = [] \<Longrightarrow> picks (revised b1 Xi Xj) \<sigma> \<and> False"
    using keep by auto
qed simp_all

text \<open>A domain that is empty at the end was empty at the start, or the run fails.\<close>

lemma ac3_loop_empties:
  assumes "wf_groups b cs" and "group_arcs cs q"
  shows "\<exists>b' r. ac3_loop q b cs = Inr (b', r) \<and>
           (if r then \<forall>v. dom_of b' v = [] \<longrightarrow> dom_of b v = []
            else \<exists>v\<in>set (keys b'). dom_of b' v = [])"
proof (rule ac3_loop_rule[where I = "\<lambda>q b'. \<forall>v. dom_of b' v = [] \<longrightarrow> dom_of b v = []"
      and Q = "\<lambda>b' r. if r then \<forall>v. dom_of b' v = [] \<longrightarrow> dom_of b v = []
            else \<exists>v\<in>set (keys b'). dom_of b' v = []", OF assms])
  fix Xi Xj q b1
  assume wf: "wf_groups b1 cs" and ga: "group_arcs cs ((Xi, Xj) # q)"
    and I: "\<forall>v. dom_of b1 v = [] \<longrightarrow> dom_of b v = []"
  from ga wf have k: "Xi \<in> set (keys b1)" by (auto simp: group_arcs_Cons dest: wf_groups_mem)
  show "dom_of (revised b1 Xi Xj) Xi \<noteq> [] \<Longrightarrow>
        \<forall>v. dom_of (revised b1 Xi Xj) v = [] \<longrightarrow> dom_of b v = []"
    using I by (auto simp: dom_of_revised split: if_splits)
  show "dom_of (revised b1 Xi Xj) Xi = [] \<Longrightarrow>
        (if False then \<forall>v. dom_of (revised b1 Xi Xj) v = [] \<longrightarrow> dom_of b v = []
            else \<exists>v\<in>set (keys (revised b1 Xi Xj)). dom_of (revised b1 Xi Xj) v = [])"
    using k keys_revised[OF k, of Xj] by auto
qed simp_all

text \<open>When the loop returns \<open>True\<close>, every arc that was consistent or queued is consistent.\<close>

lemma consistent_arc_iff:
  "consistent_arc b x y \<longleftrightarrow> (\<forall>v\<in>set (dom_of b x). \<exists>w\<in>set (dom_of b y). v \<noteq> w)"
  by (simp add: consistent_arc_def list_all_iff supported_iff)

lemma arc_consistent_iff:
  "arc_consistent b cs \<longleftrightarrow> (\<forall>(x, y)\<in>set (initial_queue cs). consistent_arc b x y)"
  by (simp add: arc_consistent_def list_all_iff)

lemma ac3_loop_arc_consistent:
  assumes "wf_groups b cs" and "group_arcs cs q"
    and "\<forall>(x, y)\<in>set (initial_queue cs). (x, y) \<in> set q \<or> consistent_arc b x y"
  shows "\<exists>b' r. ac3_loop q b cs = Inr (b', r) \<and> (r \<longrightarrow> arc_consistent b' cs)"
proof (rule ac3_loop_rule[where
      I = "\<lambda>q b'. \<forall>(x, y)\<in>set (initial_queue cs). (x, y) \<in> set q \<or> consistent_arc b' x y"
      and Q = "\<lambda>b' r. r \<longrightarrow> arc_consistent b' cs", OF assms])
  fix Xi Xj q b1
  assume wf: "wf_groups b1 cs" and ga: "group_arcs cs ((Xi, Xj) # q)"
    and I: "\<forall>(x, y)\<in>set (initial_queue cs). (x, y) \<in> set ((Xi, Xj) # q) \<or> consistent_arc b1 x y"
  from ga wf have arc: "Xi \<noteq> Xj" "Xi \<in> set (keys b1)" "Xj \<in> set (keys b1)"
    by (auto simp: group_arcs_Cons dest: wf_groups_mem)
  let ?b2 = "revised b1 Xi Xj"
  have d2: "\<And>k. dom_of ?b2 k = (if k = Xi then filter (supported (dom_of b1 Xj)) (dom_of b1 Xi) else dom_of b1 k)"
    by (rule dom_of_revised)
  show "revised b1 Xi Xj = b1 \<Longrightarrow>
        \<forall>(x, y)\<in>set (initial_queue cs). (x, y) \<in> set q \<or> consistent_arc b1 x y"
    using I revised_same_iff[OF arc(2), of Xj] by auto
  show "\<forall>(x, y)\<in>set (initial_queue cs). (x, y) \<in> set (q @ enqueue Xi Xj cs) \<or> consistent_arc ?b2 x y"
  proof (clarify)
    fix x y
    assume xy: "(x, y) \<in> set (initial_queue cs)" and nc: "\<not> consistent_arc ?b2 x y"
    show "(x, y) \<in> set (q @ enqueue Xi Xj cs)"
    proof (rule ccontr)
      assume nq: "(x, y) \<notin> set (q @ enqueue Xi Xj cs)"
      from xy have xny: "x \<noteq> y" and grp: "\<exists>c\<in>set cs. x \<in> set c \<and> y \<in> set c"
        by (auto simp: in_initial_queue)
      have new: "consistent_arc ?b2 Xi Xj"
        using arc(1) by (auto simp: consistent_arc_iff d2 supported_iff)
      with nc have neq: "(x, y) \<noteq> (Xi, Xj)" by auto
      with I xy nq have old: "consistent_arc b1 x y" by auto
      show False
      proof (cases "y = Xi")
        case False
        then have "consistent_arc ?b2 x y"
          using old by (auto simp: consistent_arc_iff d2)
        with nc show False ..
      next
        case True
        with xny have xi: "x \<noteq> Xi" by simp
        show False
        proof (cases "x = Xj")
          case False
          with True xi grp have "(x, y) \<in> set (enqueue Xi Xj cs)"
            by (auto simp: in_enqueue)
          with nq show False by simp
        next
          case xj: True
          have "consistent_arc ?b2 Xj Xi"
            unfolding consistent_arc_iff
          proof
            fix v assume v: "v \<in> set (dom_of ?b2 Xj)"
            then have v1: "v \<in> set (dom_of b1 Xj)" using arc(1) by (simp add: d2)
            with old True xj obtain w where w: "w \<in> set (dom_of b1 Xi)" "v \<noteq> w"
              by (auto simp: consistent_arc_iff)
            with v1 have "w \<in> set (dom_of ?b2 Xi)"
              by (auto simp: d2 supported_iff)
            with w show "\<exists>w\<in>set (dom_of ?b2 Xi). v \<noteq> w" by blast
          qed
          with nc True xj show False by simp
        qed
      qed
    qed
  qed
next
  fix b1
  assume "\<forall>(x, y)\<in>set (initial_queue cs). (x, y) \<in> set [] \<or> consistent_arc b1 x y"
  then show "True \<longrightarrow> arc_consistent b1 cs" by (auto simp: arc_consistent_iff)
qed simp_all

text \<open>On an arc-consistent board the loop changes nothing and returns \<open>True\<close>.\<close>

lemma ac3_loop_fixpoint:
  assumes "wf_groups b cs" and "group_arcs cs q" and ac: "arc_consistent b cs"
  shows "ac3_loop q b cs = Inr (b, True)"
proof -
  have "\<exists>b' r. ac3_loop q b cs = Inr (b', r) \<and> (b' = b \<and> r)"
  proof (rule ac3_loop_rule[where I = "\<lambda>q b'. b' = b" and Q = "\<lambda>b' r. b' = b \<and> r", OF assms(1,2)])
    fix Xi Xj q b1
    assume wf: "wf_groups b1 cs" and ga: "group_arcs cs ((Xi, Xj) # q)" and I: "b1 = b"
    from ga wf have arc: "Xi \<in> set (keys b1)" "(Xi, Xj) \<in> set (initial_queue cs)"
      by (auto simp: group_arcs_Cons in_initial_queue dest: wf_groups_mem)
    with ac I have "consistent_arc b1 Xi Xj" by (auto simp: arc_consistent_iff)
    then have same: "revised b1 Xi Xj = b1" using revised_same_iff[OF arc(1)] by simp
    show "revised b1 Xi Xj \<noteq> b1 \<Longrightarrow> revised b1 Xi Xj = b" using same by simp
    show "revised b1 Xi Xj \<noteq> b1 \<Longrightarrow> revised b1 Xi Xj = b \<and> False" using same by simp
  qed simp_all
  then show ?thesis by auto
qed

section \<open>Example boards and the 27 groups\<close>

text \<open>
  Boards for the examples: the dict \<open>{cell: f(cell) for cell in cells}\<close>.
\<close>

definition board_from :: "(var \<Rightarrow> domain) \<Rightarrow> board" where
  "board_from f = map (\<lambda>cell. (cell, f cell)) cells"

definition all_ones :: board where
  "all_ones = board_from (\<lambda>cell. [''1''])"

definition all_empty :: board where
  "all_empty = board_from (\<lambda>cell. [])"

text \<open>The puzzle that the notebook solves, and the solution it prints.\<close>

definition grid_value :: "string list \<Rightarrow> var \<Rightarrow> char option" where
  "grid_value grid v =
     (case v of
        [r, c] \<Rightarrow>
          (case map_of (zip rows grid) r of
             None \<Rightarrow> None
           | Some line \<Rightarrow> map_of (zip columns line) c)
      | _ \<Rightarrow> None)"

definition puzzle_grid :: "string list" where
  "puzzle_grid = [''.6..5...4'', ''..9......'', ''715......'', ''..3.1...5'', ''...7.32..'',
                  ''8.1.45.9.'', ''..7...9..'', ''2.8...54.'', ''6..92.7..'']"

definition solution_grid :: "string list" where
  "solution_grid = [''362859174'', ''489137652'', ''715462839'', ''973218465'', ''546793218'',
                    ''821645397'', ''137584926'', ''298376541'', ''654921783'']"

definition puzzle :: board where
  "puzzle = board_from (\<lambda>cell.
     case grid_value puzzle_grid cell of
       None \<Rightarrow> []
     | Some c \<Rightarrow> if c = CHR ''.'' then digits else [[c]])"

definition solved_value :: "var \<Rightarrow> val" where
  "solved_value v = (case grid_value solution_grid v of None \<Rightarrow> [] | Some c \<Rightarrow> [c])"

definition solved_board :: board where
  "solved_board = board_from (\<lambda>cell. [solved_value cell])"

lemma set_cells: "set cells = {[r, c] | r c. r \<in> set rows \<and> c \<in> set columns}"
  unfolding cells_def row_groups_def by auto

lemma cells_eval: "cells =
  [''A1'', ''A2'', ''A3'', ''A4'', ''A5'', ''A6'', ''A7'', ''A8'', ''A9'',
   ''B1'', ''B2'', ''B3'', ''B4'', ''B5'', ''B6'', ''B7'', ''B8'', ''B9'',
   ''C1'', ''C2'', ''C3'', ''C4'', ''C5'', ''C6'', ''C7'', ''C8'', ''C9'',
   ''D1'', ''D2'', ''D3'', ''D4'', ''D5'', ''D6'', ''D7'', ''D8'', ''D9'',
   ''E1'', ''E2'', ''E3'', ''E4'', ''E5'', ''E6'', ''E7'', ''E8'', ''E9'',
   ''F1'', ''F2'', ''F3'', ''F4'', ''F5'', ''F6'', ''F7'', ''F8'', ''F9'',
   ''G1'', ''G2'', ''G3'', ''G4'', ''G5'', ''G6'', ''G7'', ''G8'', ''G9'',
   ''H1'', ''H2'', ''H3'', ''H4'', ''H5'', ''H6'', ''H7'', ''H8'', ''H9'',
   ''I1'', ''I2'', ''I3'', ''I4'', ''I5'', ''I6'', ''I7'', ''I8'', ''I9'']"
  by (simp add: cells_def row_groups_def rows_def columns_def)

lemma distinct_cells: "distinct cells"
  unfolding cells_eval by simp

lemma length_cells: "length cells = 81"
  unfolding cells_eval by simp

lemma keys_board_from: "keys (board_from f) = cells"
  by (simp add: board_from_def keys_def comp_def)

lemma is_board_board_from: "is_board (board_from f)"
  by (simp add: is_board_def keys_board_from distinct_cells)

lemma dom_of_board_from: "dom_of (board_from f) v = (if v \<in> set cells then f v else [])"
  by (simp add: dom_of_def board_from_def map_of_map_restrict restrict_map_def)

lemma mem_cells: "[r, c] \<in> set cells \<longleftrightarrow> r \<in> set rows \<and> c \<in> set columns"
  by (auto simp: set_cells)

lemma group_subset_cells: "c \<in> set generate_constraints \<Longrightarrow> v \<in> set c \<Longrightarrow> v \<in> set cells"
  unfolding generate_constraints_def row_groups_def column_groups_def box_groups_def set_cells
  by (auto dest!: in_set_takeD in_set_dropD)

lemma wf_groups_generate: "is_board b \<Longrightarrow> wf_groups b generate_constraints"
  unfolding wf_groups_def list_all_iff is_board_def using group_subset_cells by auto

lemma same_row_arc:
  assumes "r \<in> set rows" "c1 \<in> set columns" "c2 \<in> set columns" "c1 \<noteq> c2"
  shows "([r, c1], [r, c2]) \<in> set (initial_queue generate_constraints)"
proof -
  let ?g = "map (\<lambda>column. [r, column]) columns"
  have "?g \<in> set generate_constraints"
    using assms(1) by (auto simp: generate_constraints_def row_groups_def)
  moreover have "[r, c1] \<in> set ?g" "[r, c2] \<in> set ?g" using assms by auto
  ultimately show ?thesis unfolding in_initial_queue using assms(4) by blast
qed

lemma same_column_arc:
  assumes "c \<in> set columns" "r1 \<in> set rows" "r2 \<in> set rows" "r1 \<noteq> r2"
  shows "([r1, c], [r2, c]) \<in> set (initial_queue generate_constraints)"
proof -
  let ?g = "map (\<lambda>row. [row, c]) rows"
  have "?g \<in> set generate_constraints"
    using assms(1) by (auto simp: generate_constraints_def column_groups_def)
  moreover have "[r1, c] \<in> set ?g" "[r2, c] \<in> set ?g" using assms by auto
  ultimately show ?thesis unfolding in_initial_queue using assms(4) by blast
qed

lemma consistent_arc_empty: "consistent_arc b x y \<Longrightarrow> dom_of b y = [] \<Longrightarrow> dom_of b x = []"
  by (cases "dom_of b x") (auto simp: consistent_arc_iff)

text \<open>
  Any two cells are joined through a third one, in the row of the first and the column
  of the second: on an arc-consistent board one empty domain makes all domains empty.
\<close>

lemma empty_spreads:
  assumes ac: "arc_consistent b generate_constraints"
    and y: "y \<in> set cells" "dom_of b y = []" and x: "x \<in> set cells"
  shows "dom_of b x = []"
proof -
  from x obtain r1 c1 where x': "x = [r1, c1]" "r1 \<in> set rows" "c1 \<in> set columns"
    by (auto simp: set_cells)
  from y obtain r2 c2 where y': "y = [r2, c2]" "r2 \<in> set rows" "c2 \<in> set columns"
    by (auto simp: set_cells)
  have z: "dom_of b [r1, c2] = []"
  proof (cases "r1 = r2")
    case True
    with y y' show ?thesis by simp
  next
    case False
    then have "([r1, c2], [r2, c2]) \<in> set (initial_queue generate_constraints)"
      using same_column_arc x' y' by simp
    with ac have "consistent_arc b [r1, c2] [r2, c2]" by (auto simp: arc_consistent_iff)
    with y y' show ?thesis by (auto dest: consistent_arc_empty)
  qed
  show ?thesis
  proof (cases "c1 = c2")
    case True
    with z x' show ?thesis by simp
  next
    case False
    then have "([r1, c1], [r1, c2]) \<in> set (initial_queue generate_constraints)"
      using same_row_arc x' y' by simp
    with ac have "consistent_arc b [r1, c1] [r1, c2]" by (auto simp: arc_consistent_iff)
    with z x' show ?thesis by (auto dest: consistent_arc_empty)
  qed
qed

lemma ac3_total:
  assumes "wf_groups b cs"
  shows "\<exists>b' r. ac3 b cs = Inr (b', r) \<and> keys b' = keys b \<and>
           (\<forall>v. set (dom_of b' v) \<subseteq> set (dom_of b v))"
  unfolding ac3_def using ac3_loop_shrinks[OF assms group_arcs_initial] .

lemma ac3_arc_consistent:
  assumes "wf_groups b cs" and "ac3 b cs = Inr (b', True)"
  shows "arc_consistent b' cs"
proof -
  have "\<forall>(x, y)\<in>set (initial_queue cs). (x, y) \<in> set (initial_queue cs) \<or> consistent_arc b x y"
    by auto
  from ac3_loop_arc_consistent[OF assms(1) group_arcs_initial this] assms(2)
  show ?thesis by (auto simp: ac3_def)
qed

lemma ac3_fixpoint:
  assumes "wf_groups b cs" and "arc_consistent b cs"
  shows "ac3 b cs = Inr (b, True)"
  unfolding ac3_def using ac3_loop_fixpoint[OF assms(1) group_arcs_initial assms(2)] .


lemma satisfies_iff_distinct:
  assumes "\<forall>c\<in>set cs. distinct c"
  shows "satisfies cs \<sigma> \<longleftrightarrow> list_all (\<lambda>c. distinct (map \<sigma> c)) cs"
  unfolding satisfies_def list_all_iff
proof (intro ball_cong refl)
  fix c assume "c \<in> set cs"
  with assms have "distinct c" by blast
  then show "(\<forall>x\<in>set c. \<forall>y\<in>set c. x \<noteq> y \<longrightarrow> \<sigma> x \<noteq> \<sigma> y) = distinct (map \<sigma> c)"
    by (auto simp: distinct_map inj_on_def)
qed

lemma distinct_groups: "\<forall>c\<in>set generate_constraints. distinct c"
  by code_simp

lemma satisfies_solved_value: "satisfies generate_constraints solved_value"
  unfolding satisfies_iff_distinct[OF distinct_groups] by code_simp

lemma picks_puzzle: "picks puzzle solved_value"
  unfolding picks_def puzzle_def keys_board_from dom_of_board_from by code_simp

lemma dom_of_all_ones: "dom_of all_ones v = (if v \<in> set cells then [''1''] else [])"
  by (simp add: all_ones_def dom_of_board_from)

lemma dom_of_all_empty: "dom_of all_empty v = []"
  by (simp add: all_empty_def dom_of_board_from)

lemma A1_in_cells: "''A1'' \<in> set cells"
  by (simp add: mem_cells rows_def columns_def)

section \<open>Claims about AC-3\<close>

text \<open>
  C3, soundness of pruning.  For every 81-cell board and the 27 groups of
  \<open>generate_constraints\<close>: when an assignment \<open>\<sigma>\<close> picks one value from the domain of every
  cell and gives different values to any two different cells of a group, \<open>ac3\<close> returns
  without an exception, the board it leaves has the same cells, and \<open>\<sigma>\<close> still picks
  from every domain: no value of the assignment was removed.  The run returns \<open>True\<close>.
\<close>

theorem ac3_sound:
  assumes "is_board b" and "picks b \<sigma>" and "satisfies generate_constraints \<sigma>"
  shows "\<exists>b' r. ac3 b generate_constraints = Inr (b', r) \<and> keys b' = keys b \<and> picks b' \<sigma> \<and> r"
proof -
  note wf = wf_groups_generate[OF assms(1)]
  from ac3_loop_sound[OF wf group_arcs_initial assms(2,3)]
  obtain b' r where run: "ac3 b generate_constraints = Inr (b', r)" and p: "picks b' \<sigma>" "r"
    by (auto simp: ac3_def)
  from ac3_total[OF wf] run have "keys b' = keys b" by auto
  with run p show ?thesis by blast
qed

theorem ac3_sound_witness:
  "is_board puzzle \<and> picks puzzle solved_value \<and> satisfies generate_constraints solved_value \<and>
   (\<exists>b' r. ac3 puzzle generate_constraints = Inr (b', r) \<and> keys b' = keys puzzle \<and>
      picks b' solved_value \<and> r)"
  using ac3_sound[OF _ picks_puzzle satisfies_solved_value] picks_puzzle satisfies_solved_value
  by (simp add: puzzle_def is_board_board_from)

text \<open>
  C5, termination of AC-3.  The worklist loop is the total function \<open>ac3_loop\<close>, whose
  termination proof is the argument of the claim: a revision that removes a value makes
  the sum of the domain sizes smaller, and any other step shortens the worklist.  So for
  every 81-cell board \<open>ac3\<close> returns a board and a boolean, and no exception; and a
  revision that reports a removal has made the sum of the domain sizes smaller.
\<close>

theorem ac3_terminates:
  assumes "is_board b"
  shows "(\<exists>b' r. ac3 b generate_constraints = Inr (b', r)) \<and>
         (\<forall>Xi Xj b1 b2. revise_arc_consistency Xi Xj b1 = Inr (b2, True) \<longrightarrow>
            total_size b2 < total_size b1)"
proof
  from ac3_total[OF wf_groups_generate[OF assms]]
  show "\<exists>b' r. ac3 b generate_constraints = Inr (b', r)" by blast
  show "\<forall>Xi Xj b1 b2. revise_arc_consistency Xi Xj b1 = Inr (b2, True) \<longrightarrow>
            total_size b2 < total_size b1"
    using revise_total by blast
qed

theorem ac3_terminates_witness:
  "is_board puzzle \<and> (\<exists>b' r. ac3 puzzle generate_constraints = Inr (b', r))"
  using ac3_terminates[of puzzle] by (simp add: puzzle_def is_board_board_from)

text \<open>
  C4, failure signalling.  As stated the claim fails: on the board whose 81 domains are
  all empty no revision removes anything, and \<open>ac3\<close> returns \<open>True\<close>.
\<close>

theorem ac3_signalling_counterexample:
  "is_board all_empty \<and> ac3 all_empty generate_constraints = Inr (all_empty, True) \<and>
   ''A1'' \<in> set (keys all_empty) \<and> dom_of all_empty ''A1'' = []"
proof -
  have b: "is_board all_empty" by (simp add: all_empty_def is_board_board_from)
  have "arc_consistent all_empty generate_constraints"
    by (auto simp: arc_consistent_iff consistent_arc_iff dom_of_all_empty)
  from ac3_fixpoint[OF wf_groups_generate[OF b] this]
  have run: "ac3 all_empty generate_constraints = Inr (all_empty, True)" .
  have k: "''A1'' \<in> set (keys all_empty)"
    by (simp add: all_empty_def keys_board_from A1_in_cells)
  from b run k dom_of_all_empty show ?thesis by blast
qed

text \<open>
  C4 as amended.  For every 81-cell board with at least one non-empty domain, \<open>ac3\<close>
  returns a board with the same cells whose domains are subsets of the old ones, and a
  boolean that is \<open>True\<close> exactly when every domain of that board is non-empty.  At any
  point of the loop, a revision that removes a value and leaves \<open>Xi\<close> with no value makes
  \<open>ac3\<close> return \<open>False\<close> at once, with the board as the revision left it.
\<close>

theorem ac3_failure_signalling:
  assumes "is_board b" and "\<exists>v\<in>set (keys b). dom_of b v \<noteq> []"
  shows "(\<exists>b' r. ac3 b generate_constraints = Inr (b', r) \<and> keys b' = keys b \<and>
            (\<forall>v. set (dom_of b' v) \<subseteq> set (dom_of b v)) \<and>
            (r \<longleftrightarrow> (\<forall>v\<in>set (keys b'). dom_of b' v \<noteq> []))) \<and>
         (\<forall>Xi Xj queue b0 b1 cs.
            revise_arc_consistency Xi Xj b0 = Inr (b1, True) \<and> getitem b1 Xi = Inr [] \<longrightarrow>
            ac3_loop ((Xi, Xj) # queue) b0 cs = Inr (b1, False))"
proof
  note wf = wf_groups_generate[OF assms(1)]
  from ac3_total[OF wf] obtain b' r where run: "ac3 b generate_constraints = Inr (b', r)"
    and k: "keys b' = keys b" and sub: "\<forall>v. set (dom_of b' v) \<subseteq> set (dom_of b v)"
    by blast
  have kc: "set (keys b') = set cells" using k assms(1) by (simp add: is_board_def)
  have iff: "r \<longleftrightarrow> (\<forall>v\<in>set (keys b'). dom_of b' v \<noteq> [])"
  proof
    assume r: r
    with run have ac: "arc_consistent b' generate_constraints"
      using ac3_arc_consistent[OF wf] by simp
    from ac3_loop_empties[OF wf group_arcs_initial] run r
    have old: "\<forall>v. dom_of b' v = [] \<longrightarrow> dom_of b v = []" by (auto simp: ac3_def)
    show "\<forall>v\<in>set (keys b'). dom_of b' v \<noteq> []"
    proof (rule ccontr)
      assume "\<not> (\<forall>v\<in>set (keys b'). dom_of b' v \<noteq> [])"
      then obtain y where y: "y \<in> set cells" "dom_of b' y = []" using kc by auto
      have "\<forall>x\<in>set cells. dom_of b' x = []"
        using empty_spreads[OF ac y] by blast
      with old have "\<forall>x\<in>set cells. dom_of b x = []" by blast
      with assms show False by (auto simp: is_board_def)
    qed
  next
    assume ne: "\<forall>v\<in>set (keys b'). dom_of b' v \<noteq> []"
    show r
    proof (rule ccontr)
      assume "\<not> r"
      with ac3_loop_empties[OF wf group_arcs_initial] run
      have "\<exists>v\<in>set (keys b'). dom_of b' v = []" by (auto simp: ac3_def)
      with ne show False by blast
    qed
  qed
  from run k sub iff
  show "\<exists>b' r. ac3 b generate_constraints = Inr (b', r) \<and> keys b' = keys b \<and>
            (\<forall>v. set (dom_of b' v) \<subseteq> set (dom_of b v)) \<and>
            (r \<longleftrightarrow> (\<forall>v\<in>set (keys b'). dom_of b' v \<noteq> []))"
    by blast
  show "\<forall>Xi Xj queue b0 b1 cs.
            revise_arc_consistency Xi Xj b0 = Inr (b1, True) \<and> getitem b1 Xi = Inr [] \<longrightarrow>
            ac3_loop ((Xi, Xj) # queue) b0 cs = Inr (b1, False)"
    by simp
qed

theorem ac3_failure_signalling_witness:
  "is_board all_ones \<and> ''A1'' \<in> set (keys all_ones) \<and> dom_of all_ones ''A1'' \<noteq> [] \<and>
   (\<exists>b' r. ac3 all_ones generate_constraints = Inr (b', r) \<and> keys b' = keys all_ones \<and>
      (\<forall>v. set (dom_of b' v) \<subseteq> set (dom_of all_ones v)) \<and>
      (r \<longleftrightarrow> (\<forall>v\<in>set (keys b'). dom_of b' v \<noteq> [])))"
proof -
  have b: "is_board all_ones" by (simp add: all_ones_def is_board_board_from)
  have k: "''A1'' \<in> set (keys all_ones)" by (simp add: all_ones_def keys_board_from A1_in_cells)
  have d: "dom_of all_ones ''A1'' \<noteq> []" by (simp add: dom_of_all_ones A1_in_cells)
  from k d have "\<exists>v\<in>set (keys all_ones). dom_of all_ones v \<noteq> []" by blast
  from ac3_failure_signalling[OF b this] b k d show ?thesis by blast
qed

section \<open>The local deduction rules only remove candidates\<close>

text \<open>\<open>shrinks b b'\<close>: the board \<open>b'\<close> has the cells of \<open>b\<close>, each with a subset of its values.\<close>

definition shrinks :: "board \<Rightarrow> board \<Rightarrow> bool" where
  "shrinks b b' = (keys b' = keys b \<and> (\<forall>v. set (dom_of b' v) \<subseteq> set (dom_of b v)))"

lemma shrinks_refl: "shrinks b b"
  by (simp add: shrinks_def)

lemma shrinks_trans: "shrinks a b \<Longrightarrow> shrinks b c \<Longrightarrow> shrinks a c"
  unfolding shrinks_def by (metis subset_trans)

lemma shrinks_setitem:
  assumes "k \<in> set (keys b)" and "set d \<subseteq> set (dom_of b k)"
  shows "shrinks b (setitem b k d)"
  unfolding shrinks_def using assms keys_setitem[OF keys_map_of[OF assms(1)]]
  by (auto simp: dom_of_setitem)

lemma getitem_keys: "k \<in> set (keys b) \<Longrightarrow> getitem b k = Inr (dom_of b k)"
  by (simp add: getitem_Inr keys_map_of)

lemma naked_single_delete_shrinks:
  assumes "set const \<subseteq> set (keys b)" and "KeyVar \<in> set (keys b)" and "dom_of b KeyVar \<noteq> []"
  shows "\<exists>b'. naked_single_delete KeyVar const b = Inr b' \<and> shrinks b b' \<and>
           dom_of b' KeyVar = dom_of b KeyVar"
  using assms
proof (induction const arbitrary: b)
  case Nil
  then show ?case by (simp add: shrinks_refl)
next
  case (Cons k rest)
  show ?case
  proof (cases "k = KeyVar")
    case True
    with Cons show ?thesis by simp
  next
    case False
    from Cons.prems(3) obtain x xs where dv: "dom_of b KeyVar = x # xs"
      by (cases "dom_of b KeyVar") auto
    let ?b1 = "setitem b k (discard x (dom_of b k))"
    have kk: "k \<in> set (keys b)" using Cons.prems(1) by simp
    have s1: "shrinks b ?b1"
      by (rule shrinks_setitem[OF kk]) (auto simp: discard_def)
    then have k1: "keys ?b1 = keys b" by (simp add: shrinks_def)
    have d1: "dom_of ?b1 KeyVar = dom_of b KeyVar"
      using False by (simp add: dom_of_setitem)
    have "\<exists>b'. naked_single_delete KeyVar rest ?b1 = Inr b' \<and> shrinks ?b1 b' \<and>
           dom_of b' KeyVar = dom_of ?b1 KeyVar"
      by (rule Cons.IH) (use Cons.prems k1 d1 in auto)
    then obtain b' where run: "naked_single_delete KeyVar rest ?b1 = Inr b'"
      and s2: "shrinks ?b1 b'" and d2: "dom_of b' KeyVar = dom_of ?b1 KeyVar"
      by blast
    have "naked_single_delete KeyVar (k # rest) b = Inr b'"
      using False run dv by (simp add: getitem_keys[OF kk] getitem_keys[OF Cons.prems(2)])
    with shrinks_trans[OF s1 s2] d1 d2 show ?thesis by simp
  qed
qed

lemma naked_single_group_shrinks:
  assumes "set const \<subseteq> set (keys b)" and "set rest \<subseteq> set (keys b)"
  shows "\<exists>b'. naked_single_group const rest b = Inr b' \<and> shrinks b b'"
  using assms
proof (induction rest arbitrary: b)
  case Nil
  then show ?case by (simp add: shrinks_refl)
next
  case (Cons k rest)
  have kk: "k \<in> set (keys b)" using Cons.prems(2) by simp
  show ?case
  proof (cases "length (dom_of b k) = 1")
    case False
    with Cons.IH[OF Cons.prems(1)] Cons.prems(2) show ?thesis
      by (simp add: getitem_keys[OF kk])
  next
    case True
    then have "dom_of b k \<noteq> []" by auto
    from naked_single_delete_shrinks[OF Cons.prems(1) kk this]
    obtain b1 where run1: "naked_single_delete k const b = Inr b1" and s1: "shrinks b b1"
      by blast
    then have k1: "keys b1 = keys b" by (simp add: shrinks_def)
    have "\<exists>b'. naked_single_group const rest b1 = Inr b' \<and> shrinks b1 b'"
      by (rule Cons.IH) (use Cons.prems k1 in auto)
    then obtain b' where run2: "naked_single_group const rest b1 = Inr b'" and s2: "shrinks b1 b'"
      by blast
    from True run1 run2 shrinks_trans[OF s1 s2] show ?thesis
      by (simp add: getitem_keys[OF kk])
  qed
qed

lemma wf_groups_Cons: "wf_groups b (c # cs) \<longleftrightarrow> set c \<subseteq> set (keys b) \<and> wf_groups b cs"
  by (auto simp: wf_groups_def list_all_iff)

lemma wf_groups_shrinks: "shrinks b b' \<Longrightarrow> wf_groups b cs \<Longrightarrow> wf_groups b' cs"
  by (simp add: wf_groups_def shrinks_def)

lemma naked_single_shrinks:
  assumes "wf_groups b cs"
  shows "\<exists>b'. naked_single b cs = Inr b' \<and> shrinks b b'"
  using assms
proof (induction cs arbitrary: b)
  case Nil
  then show ?case by (simp add: shrinks_refl)
next
  case (Cons c cs)
  then have c: "set c \<subseteq> set (keys b)" and wf: "wf_groups b cs"
    by (simp_all add: wf_groups_Cons)
  from naked_single_group_shrinks[OF c c]
  obtain b1 where run1: "naked_single_group c c b = Inr b1" and s1: "shrinks b b1" by blast
  from Cons.IH[OF wf_groups_shrinks[OF s1 wf]]
  obtain b' where run2: "naked_single b1 cs = Inr b'" and s2: "shrinks b1 b'" by blast
  from run1 run2 shrinks_trans[OF s1 s2] show ?case by simp
qed

lemma hidden_single_count_last:
  assumes "set const \<subseteq> set (keys b)"
    and "case last_key of None \<Rightarrow> True | Some k \<Rightarrow> k \<in> set (keys b) \<and> digit \<in> set (dom_of b k)"
  shows "\<exists>count' last'. hidden_single_count digit const b (count, last_key) = Inr (count', last') \<and>
           (case last' of None \<Rightarrow> True | Some k \<Rightarrow> k \<in> set (keys b) \<and> digit \<in> set (dom_of b k))"
  using assms
proof (induction const arbitrary: count last_key)
  case Nil
  then show ?case by simp
next
  case (Cons k rest)
  have kk: "k \<in> set (keys b)" using Cons.prems(1) by simp
  show ?case
  proof (cases "digit \<in> set (dom_of b k)")
    case True
    have "\<exists>count' last'. hidden_single_count digit rest b (count + 1, Some k) = Inr (count', last') \<and>
           (case last' of None \<Rightarrow> True | Some k \<Rightarrow> k \<in> set (keys b) \<and> digit \<in> set (dom_of b k))"
      by (rule Cons.IH) (use Cons.prems kk True in auto)
    with True show ?thesis by (simp add: getitem_keys[OF kk])
  next
    case False
    have "\<exists>count' last'. hidden_single_count digit rest b (count, last_key) = Inr (count', last') \<and>
           (case last' of None \<Rightarrow> True | Some k \<Rightarrow> k \<in> set (keys b) \<and> digit \<in> set (dom_of b k))"
      by (rule Cons.IH) (use Cons.prems in auto)
    with False show ?thesis by (simp add: getitem_keys[OF kk])
  qed
qed

lemma hidden_single_digits_shrinks:
  assumes "set const \<subseteq> set (keys b)"
  shows "\<exists>b'. hidden_single_digits const ds b = Inr b' \<and> shrinks b b'"
  using assms
proof (induction ds arbitrary: b)
  case Nil
  then show ?case by (simp add: shrinks_refl)
next
  case (Cons digit ds)
  from hidden_single_count_last[OF Cons.prems, where last_key = None and digit = digit and count = 0]
  obtain count' last' where cnt: "hidden_single_count digit const b (0, None) = Inr (count', last')"
    and lst: "case last' of None \<Rightarrow> True | Some k \<Rightarrow> k \<in> set (keys b) \<and> digit \<in> set (dom_of b k)"
    by auto
  show ?case
  proof (cases "count' = 1 \<and> last' \<noteq> None")
    case False
    with Cons.IH[OF Cons.prems] cnt show ?thesis by (auto split: option.splits)
  next
    case True
    then obtain k where k: "last' = Some k" by auto
    with lst have kk: "k \<in> set (keys b)" and dk: "digit \<in> set (dom_of b k)" by auto
    let ?b1 = "setitem b k [digit]"
    have s1: "shrinks b ?b1" by (rule shrinks_setitem[OF kk]) (use dk in simp)
    then have "set const \<subseteq> set (keys ?b1)" using Cons.prems by (simp add: shrinks_def)
    from Cons.IH[OF this] obtain b' where run: "hidden_single_digits const ds ?b1 = Inr b'"
      and s2: "shrinks ?b1 b'" by blast
    from True k cnt run shrinks_trans[OF s1 s2] show ?thesis by simp
  qed
qed

lemma hidden_single_shrinks:
  assumes "wf_groups b cs"
  shows "\<exists>b'. hidden_single b cs = Inr b' \<and> shrinks b b'"
  using assms
proof (induction cs arbitrary: b)
  case Nil
  then show ?case by (simp add: shrinks_refl)
next
  case (Cons c cs)
  then have c: "set c \<subseteq> set (keys b)" and wf: "wf_groups b cs"
    by (simp_all add: wf_groups_Cons)
  from hidden_single_digits_shrinks[OF c]
  obtain b1 where run1: "hidden_single_digits c digits b = Inr b1" and s1: "shrinks b b1" by blast
  from Cons.IH[OF wf_groups_shrinks[OF s1 wf]]
  obtain b' where run2: "hidden_single b1 cs = Inr b'" and s2: "shrinks b1 b'" by blast
  from run1 run2 shrinks_trans[OF s1 s2] show ?case by simp
qed

lemma ac3_shrinks:
  assumes "wf_groups b cs"
  shows "\<exists>b' r. ac3 b cs = Inr (b', r) \<and> shrinks b b'"
  using ac3_total[OF assms] by (simp add: shrinks_def)

lemma is_board_shrinks: "is_board b \<Longrightarrow> shrinks b b' \<Longrightarrow> is_board b'"
  by (simp add: is_board_def shrinks_def)

section \<open>Evaluating the rules on example boards\<close>

text \<open>
  On a board given as \<open>board_from g\<close> a lookup reads \<open>g\<close> and an assignment updates \<open>g\<close>,
  so a pass over the 27 groups is evaluated without walking the 81 entries.
\<close>

lemma generate_constraints_eval: "generate_constraints =
  [[''A1'', ''A2'', ''A3'', ''A4'', ''A5'', ''A6'', ''A7'', ''A8'', ''A9''],
   [''B1'', ''B2'', ''B3'', ''B4'', ''B5'', ''B6'', ''B7'', ''B8'', ''B9''],
   [''C1'', ''C2'', ''C3'', ''C4'', ''C5'', ''C6'', ''C7'', ''C8'', ''C9''],
   [''D1'', ''D2'', ''D3'', ''D4'', ''D5'', ''D6'', ''D7'', ''D8'', ''D9''],
   [''E1'', ''E2'', ''E3'', ''E4'', ''E5'', ''E6'', ''E7'', ''E8'', ''E9''],
   [''F1'', ''F2'', ''F3'', ''F4'', ''F5'', ''F6'', ''F7'', ''F8'', ''F9''],
   [''G1'', ''G2'', ''G3'', ''G4'', ''G5'', ''G6'', ''G7'', ''G8'', ''G9''],
   [''H1'', ''H2'', ''H3'', ''H4'', ''H5'', ''H6'', ''H7'', ''H8'', ''H9''],
   [''I1'', ''I2'', ''I3'', ''I4'', ''I5'', ''I6'', ''I7'', ''I8'', ''I9''],
   [''A1'', ''B1'', ''C1'', ''D1'', ''E1'', ''F1'', ''G1'', ''H1'', ''I1''],
   [''A2'', ''B2'', ''C2'', ''D2'', ''E2'', ''F2'', ''G2'', ''H2'', ''I2''],
   [''A3'', ''B3'', ''C3'', ''D3'', ''E3'', ''F3'', ''G3'', ''H3'', ''I3''],
   [''A4'', ''B4'', ''C4'', ''D4'', ''E4'', ''F4'', ''G4'', ''H4'', ''I4''],
   [''A5'', ''B5'', ''C5'', ''D5'', ''E5'', ''F5'', ''G5'', ''H5'', ''I5''],
   [''A6'', ''B6'', ''C6'', ''D6'', ''E6'', ''F6'', ''G6'', ''H6'', ''I6''],
   [''A7'', ''B7'', ''C7'', ''D7'', ''E7'', ''F7'', ''G7'', ''H7'', ''I7''],
   [''A8'', ''B8'', ''C8'', ''D8'', ''E8'', ''F8'', ''G8'', ''H8'', ''I8''],
   [''A9'', ''B9'', ''C9'', ''D9'', ''E9'', ''F9'', ''G9'', ''H9'', ''I9''],
   [''A1'', ''A2'', ''A3'', ''B1'', ''B2'', ''B3'', ''C1'', ''C2'', ''C3''],
   [''A4'', ''A5'', ''A6'', ''B4'', ''B5'', ''B6'', ''C4'', ''C5'', ''C6''],
   [''A7'', ''A8'', ''A9'', ''B7'', ''B8'', ''B9'', ''C7'', ''C8'', ''C9''],
   [''D1'', ''D2'', ''D3'', ''E1'', ''E2'', ''E3'', ''F1'', ''F2'', ''F3''],
   [''D4'', ''D5'', ''D6'', ''E4'', ''E5'', ''E6'', ''F4'', ''F5'', ''F6''],
   [''D7'', ''D8'', ''D9'', ''E7'', ''E8'', ''E9'', ''F7'', ''F8'', ''F9''],
   [''G1'', ''G2'', ''G3'', ''H1'', ''H2'', ''H3'', ''I1'', ''I2'', ''I3''],
   [''G4'', ''G5'', ''G6'', ''H4'', ''H5'', ''H6'', ''I4'', ''I5'', ''I6''],
   [''G7'', ''G8'', ''G9'', ''H7'', ''H8'', ''H9'', ''I7'', ''I8'', ''I9'']]"
  by (simp add: generate_constraints_def row_groups_def column_groups_def box_groups_def
      rows_def columns_def)

lemma getitem_board_from: "k \<in> set cells \<Longrightarrow> getitem (board_from g) k = Inr (g k)"
  by (simp add: getitem_def board_from_def map_of_map_restrict restrict_map_def)

lemma board_from_cong: "(\<And>v. v \<in> set cells \<Longrightarrow> g v = h v) \<Longrightarrow> board_from g = board_from h"
  by (simp add: board_from_def)

lemma setitem_map_distinct:
  "distinct ks \<Longrightarrow> k \<in> set ks \<Longrightarrow>
   setitem (map (\<lambda>x. (x, g x)) ks) k d = map (\<lambda>x. (x, (g(k := d)) x)) ks"
  by (induction ks) auto

lemma setitem_board_from:
  "k \<in> set cells \<Longrightarrow> setitem (board_from g) k d = board_from (g(k := d))"
  unfolding board_from_def using setitem_map_distinct[OF distinct_cells] by simp

lemma setitem_board_from_if:
  "k \<in> set cells \<Longrightarrow>
   setitem (board_from g) k d = (if g k = d then board_from g else board_from (g(k := d)))"
  by (auto simp: setitem_board_from)

lemma board_from_neq: "v \<in> set cells \<Longrightarrow> g v \<noteq> h v \<Longrightarrow> board_from g \<noteq> board_from h"
  by (metis dom_of_board_from)

lemmas eval_rules = getitem_board_from setitem_board_from_if mem_cells rows_def columns_def
  discard_def generate_constraints_eval

text \<open>
  C10, coverage and shrinking.  For every 81-cell board and the 27 groups, each of
  \<open>naked_single\<close>, \<open>hidden_single\<close> and \<open>ac3\<close> returns without an exception, and the board it
  leaves has exactly the keys of the board it was given, in the same order, and at every
  cell a domain that is a subset of the domain before the call.
\<close>

theorem rules_preserve_cells_and_shrink:
  assumes "is_board b"
  shows "(\<exists>b'. naked_single b generate_constraints = Inr b' \<and> keys b' = keys b \<and>
            (\<forall>v. set (dom_of b' v) \<subseteq> set (dom_of b v))) \<and>
         (\<exists>b'. hidden_single b generate_constraints = Inr b' \<and> keys b' = keys b \<and>
            (\<forall>v. set (dom_of b' v) \<subseteq> set (dom_of b v))) \<and>
         (\<exists>b' r. ac3 b generate_constraints = Inr (b', r) \<and> keys b' = keys b \<and>
            (\<forall>v. set (dom_of b' v) \<subseteq> set (dom_of b v)))"
  using naked_single_shrinks[OF wf_groups_generate[OF assms]]
    hidden_single_shrinks[OF wf_groups_generate[OF assms]]
    ac3_total[OF wf_groups_generate[OF assms]]
  unfolding shrinks_def by blast

theorem rules_preserve_cells_and_shrink_witness:
  "is_board puzzle \<and>
   (\<exists>b'. naked_single puzzle generate_constraints = Inr b' \<and> keys b' = keys puzzle \<and>
      (\<forall>v. set (dom_of b' v) \<subseteq> set (dom_of puzzle v))) \<and>
   (\<exists>b'. hidden_single puzzle generate_constraints = Inr b' \<and> keys b' = keys puzzle \<and>
      (\<forall>v. set (dom_of b' v) \<subseteq> set (dom_of puzzle v))) \<and>
   (\<exists>b' r. ac3 puzzle generate_constraints = Inr (b', r) \<and> keys b' = keys puzzle \<and>
      (\<forall>v. set (dom_of b' v) \<subseteq> set (dom_of puzzle v)))"
  using rules_preserve_cells_and_shrink[of puzzle]
  by (simp add: puzzle_def is_board_board_from)

section \<open>The local deduction rules are not idempotent\<close>

text \<open>
  A board on which a second pass of \<open>naked_single\<close> removes a value.  The first pass finds
  the single \<open>1\<close> of \<open>A1\<close> and, in column 1, takes it from \<open>B1\<close>, which is left with \<open>2\<close>;
  row \<open>B\<close> was visited before.  The second pass takes \<open>2\<close> from \<open>B4\<close>.
\<close>

definition naked_example :: board where
  "naked_example = board_from (\<lambda>cell.
     if cell = ''A1'' then [''1''] else if cell = ''B1'' then [''1'', ''2'']
     else if cell = ''B4'' then [''2'', ''8'', ''9''] else [''8'', ''9''])"

definition naked_once :: board where
  "naked_once = board_from ((\<lambda>cell.
     if cell = ''A1'' then [''1''] else if cell = ''B1'' then [''1'', ''2'']
     else if cell = ''B4'' then [''2'', ''8'', ''9''] else [''8'', ''9''])(''B1'' := [''2'']))"

definition naked_twice :: board where
  "naked_twice = board_from ((\<lambda>cell.
     if cell = ''A1'' then [''1''] else if cell = ''B1'' then [''1'', ''2'']
     else if cell = ''B4'' then [''2'', ''8'', ''9''] else [''8'', ''9''])
       (''B1'' := [''2''], ''B4'' := [''8'', ''9'']))"

lemma naked_single_once: "naked_single naked_example generate_constraints = Inr naked_once"
  unfolding naked_example_def naked_once_def by (simp add: eval_rules)

lemma naked_single_twice: "naked_single naked_once generate_constraints = Inr naked_twice"
  unfolding naked_once_def naked_twice_def by (simp add: eval_rules)

lemma naked_twice_neq: "naked_twice \<noteq> naked_once"
  unfolding naked_once_def naked_twice_def
  by (rule board_from_neq[of "''B4''"]) (simp_all add: mem_cells rows_def columns_def)

text \<open>
  A board on which a second pass of \<open>hidden_single\<close> changes a cell.  In row \<open>A\<close> the digit
  \<open>2\<close> is held by \<open>A1\<close> and \<open>A2\<close> and the digit \<open>5\<close> by \<open>A1\<close> alone: the first pass looks at
  \<open>2\<close> before it makes \<open>5\<close> the domain of \<open>A1\<close>, and only the second pass finds \<open>2\<close> in
  \<open>A2\<close> alone.
\<close>

definition hidden_example :: board where
  "hidden_example = board_from (\<lambda>cell.
     if cell = ''A1'' then [''2'', ''5''] else if cell = ''A2'' then [''2'', ''3'']
     else if hd cell = CHR ''A'' then [''1'', ''3'', ''4'', ''6'', ''7'', ''8'', ''9'']
     else digits)"

definition hidden_once :: board where
  "hidden_once = board_from ((\<lambda>cell.
     if cell = ''A1'' then [''2'', ''5''] else if cell = ''A2'' then [''2'', ''3'']
     else if hd cell = CHR ''A'' then [''1'', ''3'', ''4'', ''6'', ''7'', ''8'', ''9'']
     else digits)(''A1'' := [''5'']))"

definition hidden_twice :: board where
  "hidden_twice = board_from ((\<lambda>cell.
     if cell = ''A1'' then [''2'', ''5''] else if cell = ''A2'' then [''2'', ''3'']
     else if hd cell = CHR ''A'' then [''1'', ''3'', ''4'', ''6'', ''7'', ''8'', ''9'']
     else digits)(''A1'' := [''5''], ''A2'' := [''2'']))"

lemma hidden_single_once: "hidden_single hidden_example generate_constraints = Inr hidden_once"
  unfolding hidden_example_def hidden_once_def by (simp add: eval_rules digits_def)

lemma hidden_single_twice: "hidden_single hidden_once generate_constraints = Inr hidden_twice"
  unfolding hidden_once_def hidden_twice_def by (simp add: eval_rules digits_def)

lemma hidden_twice_neq: "hidden_twice \<noteq> hidden_once"
  unfolding hidden_once_def hidden_twice_def
  by (rule board_from_neq[of "''A2''"]) (simp_all add: mem_cells rows_def columns_def)

text \<open>
  C7, idempotence of the local deduction rules.  As stated the claim fails for both
  rules: on \<open>naked_example\<close> and on \<open>hidden_example\<close>, two boards of 81 cells, running the
  rule twice does not give the board that running it once gives.
\<close>

theorem local_rules_idempotent_counterexample:
  "is_board naked_example \<and> is_board hidden_example \<and>
   (case naked_single naked_example generate_constraints of
      Inl e \<Rightarrow> Inl e
    | Inr b1 \<Rightarrow> naked_single b1 generate_constraints)
     \<noteq> naked_single naked_example generate_constraints \<and>
   (case hidden_single hidden_example generate_constraints of
      Inl e \<Rightarrow> Inl e
    | Inr b1 \<Rightarrow> hidden_single b1 generate_constraints)
     \<noteq> hidden_single hidden_example generate_constraints"
proof -
  have "is_board naked_example" "is_board hidden_example"
    by (simp_all add: naked_example_def hidden_example_def is_board_board_from)
  then show ?thesis
    using naked_twice_neq hidden_twice_neq
    by (simp add: naked_single_once naked_single_twice hidden_single_once hidden_single_twice)
qed

text \<open>
  C7 as amended.  Each rule is a single pass that only removes candidates, and is not
  idempotent: for every 81-cell board both passes of \<open>naked_single\<close> return without an
  exception, and the board after the second pass has the cells of the board after the
  first, each with a subset of its values; likewise for \<open>hidden_single\<close>.
\<close>

theorem local_rules_second_pass_shrinks:
  assumes "is_board b"
  shows "(\<exists>b1 b2. naked_single b generate_constraints = Inr b1 \<and>
            naked_single b1 generate_constraints = Inr b2 \<and> keys b2 = keys b1 \<and>
            (\<forall>v. set (dom_of b2 v) \<subseteq> set (dom_of b1 v))) \<and>
         (\<exists>b1 b2. hidden_single b generate_constraints = Inr b1 \<and>
            hidden_single b1 generate_constraints = Inr b2 \<and> keys b2 = keys b1 \<and>
            (\<forall>v. set (dom_of b2 v) \<subseteq> set (dom_of b1 v)))"
proof
  note wf = wf_groups_generate[OF assms]
  from naked_single_shrinks[OF wf] obtain b1
    where r1: "naked_single b generate_constraints = Inr b1" and s1: "shrinks b b1" by blast
  from naked_single_shrinks[OF wf_groups_shrinks[OF s1 wf]] obtain b2
    where r2: "naked_single b1 generate_constraints = Inr b2" and s2: "shrinks b1 b2" by blast
  from r1 r2 s2
  show "\<exists>b1 b2. naked_single b generate_constraints = Inr b1 \<and>
            naked_single b1 generate_constraints = Inr b2 \<and> keys b2 = keys b1 \<and>
            (\<forall>v. set (dom_of b2 v) \<subseteq> set (dom_of b1 v))"
    unfolding shrinks_def by blast
  from hidden_single_shrinks[OF wf] obtain h1
    where r1: "hidden_single b generate_constraints = Inr h1" and s1: "shrinks b h1" by blast
  from hidden_single_shrinks[OF wf_groups_shrinks[OF s1 wf]] obtain h2
    where r2: "hidden_single h1 generate_constraints = Inr h2" and s2: "shrinks h1 h2" by blast
  from r1 r2 s2
  show "\<exists>b1 b2. hidden_single b generate_constraints = Inr b1 \<and>
            hidden_single b1 generate_constraints = Inr b2 \<and> keys b2 = keys b1 \<and>
            (\<forall>v. set (dom_of b2 v) \<subseteq> set (dom_of b1 v))"
    unfolding shrinks_def by blast
qed

theorem local_rules_second_pass_shrinks_witness:
  "is_board naked_example \<and>
   (\<exists>b1 b2. naked_single naked_example generate_constraints = Inr b1 \<and>
      naked_single b1 generate_constraints = Inr b2 \<and> keys b2 = keys b1 \<and>
      (\<forall>v. set (dom_of b2 v) \<subseteq> set (dom_of b1 v))) \<and>
   (\<exists>b1 b2. hidden_single naked_example generate_constraints = Inr b1 \<and>
      hidden_single b1 generate_constraints = Inr b2 \<and> keys b2 = keys b1 \<and>
      (\<forall>v. set (dom_of b2 v) \<subseteq> set (dom_of b1 v)))"
  using local_rules_second_pass_shrinks[of naked_example]
  by (simp add: naked_example_def is_board_board_from)

section \<open>Running AC-3 twice\<close>

definition ones_once :: board where
  "ones_once = setitem all_ones ''A1'' []"

definition ones_twice :: board where
  "ones_twice = setitem ones_once ''A2'' []"

text \<open>
  C6, idempotence of AC-3.  As stated the claim fails: on the board whose 81 domains are
  all \<open>{1}\<close> the first run empties \<open>A1\<close> and returns \<open>False\<close> at once, and a second run on
  the board it left empties \<open>A2\<close> as well.
\<close>

theorem ac3_idempotent_counterexample:
  "is_board all_ones \<and> ac3 all_ones generate_constraints = Inr (ones_once, False) \<and>
   ac3 ones_once generate_constraints = Inr (ones_twice, False) \<and> ones_twice \<noteq> ones_once"
proof -
  have "is_board all_ones" by (simp add: all_ones_def is_board_board_from)
  moreover have "ac3 all_ones generate_constraints = Inr (ones_once, False)"
    by code_simp
  moreover have "ac3 ones_once generate_constraints = Inr (ones_twice, False)"
    by code_simp
  moreover have "ones_twice \<noteq> ones_once"
    by code_simp
  ultimately show ?thesis by blast
qed

text \<open>
  C6 as amended.  For every 81-cell board on which \<open>ac3\<close> returns \<open>True\<close>, a second run on
  the board it left returns \<open>True\<close> and leaves that board as it is.  (After a run that
  returned \<open>False\<close> a second run can remove further values.)
\<close>

theorem ac3_idempotent_after_success:
  assumes "is_board b" and "ac3 b generate_constraints = Inr (b', True)"
  shows "ac3 b' generate_constraints = Inr (b', True)"
proof -
  note wf = wf_groups_generate[OF assms(1)]
  from ac3_shrinks[OF wf] assms(2) have "shrinks b b'" by simp
  from wf_groups_shrinks[OF this wf] have wf': "wf_groups b' generate_constraints" .
  from ac3_arc_consistent[OF wf assms(2)] have "arc_consistent b' generate_constraints" .
  from ac3_fixpoint[OF wf' this] show ?thesis .
qed

theorem ac3_idempotent_after_success_witness:
  "is_board puzzle \<and>
   (\<exists>b'. ac3 puzzle generate_constraints = Inr (b', True) \<and>
         ac3 b' generate_constraints = Inr (b', True))"
proof -
  have b: "is_board puzzle" by (simp add: puzzle_def is_board_board_from)
  from ac3_loop_sound[OF wf_groups_generate[OF b] group_arcs_initial picks_puzzle
      satisfies_solved_value]
  obtain b' where run: "ac3 puzzle generate_constraints = Inr (b', True)"
    by (auto simp: ac3_def)
  from ac3_idempotent_after_success[OF b run] run b show ?thesis by blast
qed

section \<open>Properties of the variable selection\<close>

lemma py_min_None: "py_min key xs = None \<longleftrightarrow> xs = []"
  by (cases xs) auto

lemma py_max_None: "py_max key xs = None \<longleftrightarrow> xs = []"
  by (cases xs) auto

lemma mrv_None: "mrv b = None \<longleftrightarrow> \<not> (\<exists>v\<in>set (keys b). 1 < length (dom_of b v))"
  by (auto simp: mrv_def py_min_None filter_empty_conv)

lemma degree_heuristic_None:
  "degree_heuristic b cs = None \<longleftrightarrow> \<not> (\<exists>v\<in>set (keys b). 1 < length (dom_of b v))"
  by (auto simp: degree_heuristic_def py_max_None filter_empty_conv)

lemma cell_not_empty: "v \<in> set cells \<Longrightarrow> v \<noteq> []"
  by (auto simp: set_cells)

lemma py_or_mrv:
  assumes "is_board b"
  shows "py_or (mrv b) (degree_heuristic b cs) = mrv b"
proof (cases "mrv b")
  case None
  then have "degree_heuristic b cs = None" by (simp add: mrv_None degree_heuristic_None)
  with None show ?thesis by (simp add: py_or_def truthy_def)
next
  case (Some v)
  then have "v \<in> set cells" using mrv_Some[OF Some] assms by (simp add: is_board_def)
  then have "v \<noteq> []" by (rule cell_not_empty)
  with Some show ?thesis by (simp add: py_or_def truthy_def)
qed

text \<open>
  C8, the degree heuristic is dead code.  For every 81-cell board and any list of
  groups: \<open>mrv\<close> returns \<open>None\<close> exactly when \<open>degree_heuristic\<close> does, which is exactly
  when no cell has a domain of more than one value; a cell that \<open>mrv\<close> returns is a
  non-empty string, so it is truthy; and the selection expression of \<open>solve\<close>,
  \<open>mrv(board) or degree_heuristic(board, constraints)\<close>, has the value of \<open>mrv(board)\<close>.
\<close>

theorem degree_heuristic_dead_code:
  assumes "is_board b"
  shows "(mrv b = None \<longleftrightarrow> degree_heuristic b cs = None) \<and>
         (mrv b = None \<longleftrightarrow> \<not> (\<exists>v\<in>set (keys b). 1 < length (dom_of b v))) \<and>
         (\<forall>v. mrv b = Some v \<longrightarrow> truthy (mrv b)) \<and>
         py_or (mrv b) (degree_heuristic b cs) = mrv b"
proof -
  have "truthy (mrv b)" if "mrv b = Some v" for v
  proof -
    from mrv_Some[OF that] assms have "v \<in> set cells" by (simp add: is_board_def)
    with that show ?thesis by (simp add: truthy_def cell_not_empty)
  qed
  then show ?thesis
    using py_or_mrv[OF assms] by (simp add: mrv_None degree_heuristic_None)
qed

lemma mrv_puzzle: "mrv puzzle = Some ''A1''"
  unfolding mrv_def puzzle_def keys_board_from dom_of_board_from by code_simp

theorem degree_heuristic_dead_code_witness:
  "is_board puzzle \<and> mrv puzzle = Some ''A1'' \<and>
   py_or (mrv puzzle) (degree_heuristic puzzle generate_constraints) = Some ''A1''"
  using degree_heuristic_dead_code[of puzzle generate_constraints] mrv_puzzle
  by (simp add: puzzle_def is_board_board_from)

section \<open>Properties of the backtracking search\<close>

text \<open>
  \<open>is_solved b cs\<close>: every domain of \<open>b\<close> is a single value, and two different cells of a
  group never hold the same one.
\<close>

definition is_solved :: "board \<Rightarrow> constraints \<Rightarrow> bool" where
  "is_solved b cs =
     (is_board_complete b \<and> list_all (\<lambda>(x, y). dom_of b x \<noteq> dom_of b y) (initial_queue cs))"

lemma setitem_append_new: "k \<notin> set (keys b) \<Longrightarrow> setitem b k d = b @ [(k, d)]"
  unfolding keys_def by (induction b k d rule: setitem.induct) auto

lemma copy_board_aux:
  "distinct (keys (acc @ rest)) \<Longrightarrow>
   foldl (\<lambda>a v. setitem a v (dom_of (acc @ rest) v)) acc (keys rest) = acc @ rest"
proof (induction rest arbitrary: acc)
  case Nil
  then show ?case by (simp add: keys_def)
next
  case (Cons p rest)
  obtain k d where p: "p = (k, d)" by (cases p)
  from Cons.prems p have nk: "k \<notin> set (keys acc)" by (auto simp: keys_def)
  then have "map_of acc k = None" by (simp add: map_of_None_keys)
  then have dk: "dom_of (acc @ p # rest) k = d" using p by (simp add: dom_of_def map_add_def)
  have "distinct (keys ((acc @ [p]) @ rest))" using Cons.prems by simp
  from Cons.IH[OF this] show ?case
    using p dk setitem_append_new[OF nk] by (simp add: keys_def)
qed

lemma copy_board_id: "distinct (keys b) \<Longrightarrow> copy_board b = b"
  unfolding copy_board_def using copy_board_aux[of "[]" b] by simp

lemma is_board_setitem: "is_board b \<Longrightarrow> k \<in> set (keys b) \<Longrightarrow> is_board (setitem b k d)"
  unfolding is_board_def using keys_setitem[OF keys_map_of] by simp

lemma try_values_props:
  assumes "\<forall>v\<in>set vs. \<exists>r. body v = Inr r \<and> (\<forall>s. r = Some s \<longrightarrow> Q s)"
  shows "\<exists>r. try_values body vs = Inr r \<and> (\<forall>s. r = Some s \<longrightarrow> Q s) \<and>
           ((\<exists>v\<in>set vs. body v \<noteq> Inr None) \<longrightarrow> r \<noteq> None)"
  using assms
proof (induction vs)
  case Nil
  then show ?case by simp
next
  case (Cons v vs)
  from Cons.prems obtain r where r: "body v = Inr r" "\<forall>s. r = Some s \<longrightarrow> Q s" by auto
  show ?case
  proof (cases r)
    case None
    with r Cons.IH Cons.prems show ?thesis by auto
  next
    case (Some s)
    with r show ?thesis by auto
  qed
qed

lemma picks_nonempty: "picks b \<sigma> \<Longrightarrow> v \<in> set (keys b) \<Longrightarrow> dom_of b v \<noteq> []"
  unfolding picks_def by auto

lemma picks_setitem:
  assumes "picks b \<sigma>" and "k \<in> set (keys b)" and "\<sigma> k \<in> set d"
  shows "picks (setitem b k d) \<sigma>"
  using assms keys_setitem[OF keys_map_of[OF assms(2)], of d]
  by (auto simp: picks_def dom_of_setitem)

lemma not_complete_mrv:
  assumes "\<not> is_board_complete b" and "\<forall>v\<in>set (keys b). dom_of b v \<noteq> []"
  shows "mrv b \<noteq> None"
proof -
  from assms(1) obtain v where v: "v \<in> set (keys b)" "length (dom_of b v) \<noteq> 1"
    by (auto simp: is_board_complete_def list_all_iff)
  with assms(2) have "1 < length (dom_of b v)"
    by (cases "dom_of b v") auto
  with v show ?thesis by (auto simp: mrv_None)
qed

lemma keys_not_Nil: "is_board b \<Longrightarrow> b \<noteq> []"
  using A1_in_cells by (auto simp: is_board_def keys_def)

text \<open>
  The search returns, without an exception; a board it returns is complete, is a part of
  the board given, and is the board given or an arc-consistent one; and it returns a
  board whenever some assignment picks from the domains and satisfies the groups.
\<close>

lemma solve_main:
  assumes "is_board b"
  shows "\<exists>r. solve b generate_constraints = Inr r \<and>
           (\<forall>s. r = Some s \<longrightarrow> shrinks b s \<and> is_board_complete s \<and>
                  (s = b \<or> arc_consistent s generate_constraints)) \<and>
           ((\<exists>\<sigma>. picks b \<sigma> \<and> satisfies generate_constraints \<sigma>) \<longrightarrow> r \<noteq> None)"
  using assms
proof (induction "total_size b" arbitrary: b rule: less_induct)
  case less
  note b = less.prems
  let ?cs = generate_constraints
  show ?case
  proof (cases "is_board_complete b")
    case True
    then have "solve b ?cs = Inr (Some b)" by (subst solve.simps) simp
    with True show ?thesis by (simp add: shrinks_refl)
  next
    case False
    note sel = py_or_mrv[OF b, of ?cs]
    show ?thesis
    proof (cases "mrv b")
      case None
      with sel have sel': "py_or (mrv b) (degree_heuristic b ?cs) = None" by simp
      have run: "solve b ?cs = Inr None" by (subst solve.simps) (simp add: False sel')
      have "\<not> (\<exists>\<sigma>. picks b \<sigma> \<and> satisfies ?cs \<sigma>)"
      proof
        assume "\<exists>\<sigma>. picks b \<sigma> \<and> satisfies ?cs \<sigma>"
        then obtain \<sigma> where "picks b \<sigma>" by blast
        then have "\<forall>v\<in>set (keys b). dom_of b v \<noteq> []" by (auto dest: picks_nonempty)
        from not_complete_mrv[OF False this] None show False by simp
      qed
      with run show ?thesis by simp
    next
      case (Some var)
      from mrv_Some[OF Some] have vk: "var \<in> set (keys b)" and len: "1 < length (dom_of b var)"
        by simp_all
      from vk b have vne: "var \<noteq> []" by (auto simp: is_board_def cell_not_empty)
      let ?d = "dom_of b var"
      have gd: "getitem b var = Inr ?d" using vk by (rule getitem_keys)
      define body where "body = (\<lambda>vl.
          case ac3 (setitem (copy_board b) var [vl]) ?cs of
            Inl e \<Rightarrow> Inl e
          | Inr (board_copy, consistent) \<Rightarrow>
              if consistent then
                (case solve board_copy ?cs of
                   Inl e \<Rightarrow> Inl e
                 | Inr None \<Rightarrow> Inr None
                 | Inr (Some solution) \<Rightarrow>
                     if solution \<noteq> [] then Inr (Some solution) else Inr None)
              else Inr None)"
      have sel': "py_or (mrv b) (degree_heuristic b ?cs) = Some var" using sel Some by simp
      have run: "solve b ?cs = try_values body ?d"
        by (subst solve.simps) (simp add: False sel' vne gd body_def)
      have cp: "copy_board b = b" using b by (simp add: copy_board_id is_board_def)
      have branch: "\<exists>r. body vl = Inr r \<and>
            (\<forall>s. r = Some s \<longrightarrow> shrinks b s \<and> is_board_complete s \<and> arc_consistent s ?cs) \<and>
            (\<forall>\<sigma>. picks b \<sigma> \<and> satisfies ?cs \<sigma> \<and> \<sigma> var = vl \<longrightarrow> r \<noteq> None)"
        if vl: "vl \<in> set ?d" for vl
      proof -
        let ?b0 = "setitem b var [vl]"
        have b0: "is_board ?b0" using b vk by (rule is_board_setitem)
        have s0: "shrinks b ?b0" by (rule shrinks_setitem[OF vk]) (use vl in simp)
        have t0: "total_size ?b0 < total_size b"
          using total_size_setitem[OF keys_map_of[OF vk], of "[vl]"] len by simp
        note wf0 = wf_groups_generate[OF b0]
        from ac3_shrinks[OF wf0] obtain b' ok where ac: "ac3 ?b0 ?cs = Inr (b', ok)"
          and s1: "shrinks ?b0 b'" by blast
        have t1: "total_size b' \<le> total_size ?b0"
          using ac ac3_loop_total by (simp add: ac3_def)
        have b': "is_board b'" using b0 s1 by (rule is_board_shrinks)
        show ?thesis
        proof (cases ok)
          case False
          with ac have bd: "body vl = Inr None" by (simp add: body_def cp)
          have "\<not> (picks b \<sigma> \<and> satisfies ?cs \<sigma> \<and> \<sigma> var = vl)" for \<sigma>
          proof
            assume a: "picks b \<sigma> \<and> satisfies ?cs \<sigma> \<and> \<sigma> var = vl"
            then have "picks ?b0 \<sigma>" using picks_setitem[OF _ vk, of \<sigma> "[vl]"] by simp
            from ac3_loop_sound[OF wf0 group_arcs_initial this] a ac False
            show False by (auto simp: ac3_def)
          qed
          with bd show ?thesis by simp
        next
          case True
          from t0 t1 have "total_size b' < total_size b" by simp
          from less.hyps[OF this b'] obtain r where
            r: "solve b' ?cs = Inr r"
            and snd: "\<forall>s. r = Some s \<longrightarrow> shrinks b' s \<and> is_board_complete s \<and>
                  (s = b' \<or> arc_consistent s ?cs)"
            and cmp: "(\<exists>\<sigma>. picks b' \<sigma> \<and> satisfies ?cs \<sigma>) \<longrightarrow> r \<noteq> None"
            by blast
          have ac': "arc_consistent b' ?cs"
            using ac3_arc_consistent[OF wf0] ac True by simp
          have ne: "s \<noteq> []" if "r = Some s" for s
          proof -
            from snd that have "shrinks b' s" by simp
            then have "is_board s" using b' is_board_shrinks by blast
            then show ?thesis by (rule keys_not_Nil)
          qed
          have bd: "body vl = Inr r"
            using ac True r ne by (cases r) (simp_all add: body_def cp)
          have p2: "shrinks b s \<and> is_board_complete s \<and> arc_consistent s ?cs" if "r = Some s" for s
          proof -
            from snd that have "shrinks b' s" "is_board_complete s" "s = b' \<or> arc_consistent s ?cs"
              by simp_all
            with ac' shrinks_trans[OF shrinks_trans[OF s0 s1]] show ?thesis by blast
          qed
          have p3: "r \<noteq> None" if a: "picks b \<sigma> \<and> satisfies ?cs \<sigma> \<and> \<sigma> var = vl" for \<sigma>
          proof -
            from a have "picks ?b0 \<sigma>" using picks_setitem[OF _ vk, of \<sigma> "[vl]"] by simp
            from ac3_loop_sound[OF wf0 group_arcs_initial this] a ac
            have "picks b' \<sigma>" by (auto simp: ac3_def)
            with a cmp show ?thesis by blast
          qed
          from bd p2 p3 show ?thesis by blast
        qed
      qed
      have "\<forall>v\<in>set ?d. \<exists>r. body v = Inr r \<and>
            (\<forall>s. r = Some s \<longrightarrow> shrinks b s \<and> is_board_complete s \<and> arc_consistent s ?cs)"
      proof
        fix v assume "v \<in> set ?d"
        from branch[OF this] obtain r where "body v = Inr r"
          and "\<forall>s. r = Some s \<longrightarrow> shrinks b s \<and> is_board_complete s \<and> arc_consistent s ?cs"
          by metis
        then show "\<exists>r. body v = Inr r \<and>
            (\<forall>s. r = Some s \<longrightarrow> shrinks b s \<and> is_board_complete s \<and> arc_consistent s ?cs)"
          by (intro exI conjI)
      qed
      from try_values_props[where Q = "\<lambda>s. shrinks b s \<and> is_board_complete s \<and> arc_consistent s ?cs", OF this] obtain r where
        tv: "try_values body ?d = Inr r"
        and q: "\<forall>s. r = Some s \<longrightarrow> shrinks b s \<and> is_board_complete s \<and> arc_consistent s ?cs"
        and f: "(\<exists>v\<in>set ?d. body v \<noteq> Inr None) \<longrightarrow> r \<noteq> None"
        by blast
      have "r \<noteq> None" if "\<exists>\<sigma>. picks b \<sigma> \<and> satisfies ?cs \<sigma>"
      proof -
        from that obtain \<sigma> where s: "picks b \<sigma>" "satisfies ?cs \<sigma>" by blast
        then have in_d: "\<sigma> var \<in> set ?d" using vk by (simp add: picks_def)
        from branch[OF in_d] s have "body (\<sigma> var) \<noteq> Inr None" by auto
        with in_d f show ?thesis by blast
      qed
      with run tv q show ?thesis by auto
    qed
  qed
qed

lemma solve_total: "is_board b \<Longrightarrow> \<exists>r. solve b generate_constraints = Inr r"
  using solve_main by blast

lemma complete_arc_consistent_solved:
  assumes "wf_groups s cs" and "is_board_complete s" and "arc_consistent s cs"
  shows "is_solved s cs"
proof -
  have "dom_of s x \<noteq> dom_of s y" if xy: "(x, y) \<in> set (initial_queue cs)" for x y
  proof
    assume eq: "dom_of s x = dom_of s y"
    from xy assms(1) have "x \<in> set (keys s)"
      by (auto simp: in_initial_queue dest: wf_groups_mem)
    with assms(2) have "length (dom_of s x) = 1"
      by (simp add: is_board_complete_def list_all_iff)
    then obtain a where a: "dom_of s x = [a]" by (cases "dom_of s x") auto
    from assms(3) xy have "consistent_arc s x y" by (auto simp: arc_consistent_iff)
    with a eq show False by (auto simp: consistent_arc_iff)
  qed
  with assms(2) show ?thesis by (auto simp: is_solved_def list_all_iff)
qed

lemma complete_picked_solved:
  assumes "wf_groups b cs" and "is_board_complete b" and "picks b \<sigma>" and "satisfies cs \<sigma>"
  shows "is_solved b cs"
proof -
  have single: "dom_of b x = [\<sigma> x]" if "x \<in> set (keys b)" for x
  proof -
    from that assms(2) have "length (dom_of b x) = 1"
      by (simp add: is_board_complete_def list_all_iff)
    moreover from that assms(3) have "\<sigma> x \<in> set (dom_of b x)" by (simp add: picks_def)
    ultimately show ?thesis by (cases "dom_of b x") auto
  qed
  have "dom_of b x \<noteq> dom_of b y" if xy: "(x, y) \<in> set (initial_queue cs)" for x y
  proof -
    from xy assms(1) have k: "x \<in> set (keys b)" "y \<in> set (keys b)"
      by (auto simp: in_initial_queue dest: wf_groups_mem)
    from xy assms(4) have "\<sigma> x \<noteq> \<sigma> y" by (auto simp: in_initial_queue satisfies_def)
    with single[OF k(1)] single[OF k(2)] show ?thesis by simp
  qed
  with assms(2) show ?thesis by (auto simp: is_solved_def list_all_iff)
qed

lemma solved_gives_assignment:
  assumes "shrinks b s" and "is_solved s cs" and "wf_groups s cs"
  shows "picks b (\<lambda>v. hd (dom_of s v)) \<and> satisfies cs (\<lambda>v. hd (dom_of s v))"
proof -
  have single: "\<exists>a. dom_of s x = [a]" if "x \<in> set (keys s)" for x
  proof -
    from that assms(2) have "length (dom_of s x) = 1"
      by (simp add: is_solved_def is_board_complete_def list_all_iff)
    then show ?thesis by (cases "dom_of s x") auto
  qed
  have "picks b (\<lambda>v. hd (dom_of s v))"
    unfolding picks_def
  proof
    fix v assume "v \<in> set (keys b)"
    with assms(1) have "v \<in> set (keys s)" by (simp add: shrinks_def)
    from single[OF this] obtain a where a: "dom_of s v = [a]" by blast
    then have "hd (dom_of s v) \<in> set (dom_of s v)" by simp
    moreover have "set (dom_of s v) \<subseteq> set (dom_of b v)" using assms(1) by (simp add: shrinks_def)
    ultimately show "hd (dom_of s v) \<in> set (dom_of b v)" by blast
  qed
  moreover have "satisfies cs (\<lambda>v. hd (dom_of s v))"
    unfolding satisfies_def
  proof (intro ballI impI)
    fix c x y assume c: "c \<in> set cs" "x \<in> set c" "y \<in> set c" "x \<noteq> y"
    then have "(x, y) \<in> set (initial_queue cs)" by (auto simp: in_initial_queue)
    with assms(2) have ne: "dom_of s x \<noteq> dom_of s y" by (auto simp: is_solved_def list_all_iff)
    from c assms(3) have "x \<in> set (keys s)" "y \<in> set (keys s)" by (auto dest: wf_groups_mem)
    with single obtain a a' where "dom_of s x = [a]" "dom_of s y = [a']" by blast
    with ne show "hd (dom_of s x) \<noteq> hd (dom_of s y)" by simp
  qed
  ultimately show ?thesis ..
qed

text \<open>
  What the search does on a board that is not complete when it is given: it returns a
  solved board if some assignment satisfies the groups, and \<open>None\<close> if none does.
\<close>

lemma solve_output_solved:
  assumes "is_board b" and "\<not> is_board_complete b" and "solve b generate_constraints = Inr (Some s)"
  shows "is_solved s generate_constraints \<and> shrinks b s"
proof -
  from solve_main[OF assms(1)] assms(3)
  have s: "shrinks b s" "is_board_complete s" "s = b \<or> arc_consistent s generate_constraints"
    by auto
  with assms(2) have ac: "arc_consistent s generate_constraints" by auto
  have "wf_groups s generate_constraints"
    using wf_groups_shrinks[OF s(1) wf_groups_generate[OF assms(1)]] .
  from complete_arc_consistent_solved[OF this s(2) ac] s(1) show ?thesis ..
qed

lemma solve_finds_solution:
  assumes "is_board b" and "picks b \<sigma>" and "satisfies generate_constraints \<sigma>"
  shows "\<exists>s. solve b generate_constraints = Inr (Some s) \<and> is_solved s generate_constraints \<and>
           shrinks b s"
proof -
  from solve_main[OF assms(1)] assms(2,3) obtain s where
    run: "solve b generate_constraints = Inr (Some s)" by blast
  show ?thesis
  proof (cases "is_board_complete b")
    case False
    from solve_output_solved[OF assms(1) False run] run show ?thesis by blast
  next
    case True
    then have "solve b generate_constraints = Inr (Some b)" by (subst solve.simps) simp
    with run have "s = b" by simp
    with complete_picked_solved[OF wf_groups_generate[OF assms(1)] True assms(2,3)] run
    show ?thesis by (simp add: shrinks_refl)
  qed
qed

lemma solve_exhausts:
  assumes "is_board b" and "\<not> is_board_complete b"
    and "\<not> (\<exists>\<sigma>. picks b \<sigma> \<and> satisfies generate_constraints \<sigma>)"
  shows "solve b generate_constraints = Inr None"
proof -
  from solve_total[OF assms(1)] obtain r where run: "solve b generate_constraints = Inr r"
    by blast
  show ?thesis
  proof (cases r)
    case None
    with run show ?thesis by simp
  next
    case (Some s)
    from solve_output_solved[OF assms(1,2)] run Some
    have s: "is_solved s generate_constraints" "shrinks b s" by simp_all
    have "wf_groups s generate_constraints"
      using wf_groups_shrinks[OF s(2) wf_groups_generate[OF assms(1)]] .
    from solved_gives_assignment[OF s(2) s(1) this] assms(3) show ?thesis by blast
  qed
qed

text \<open>
  In a solved board whose values are digits, the nine values of every group are the
  nine digits, each once.
\<close>

lemma length_groups: "\<forall>c\<in>set generate_constraints. length c = 9"
  unfolding generate_constraints_eval by simp

lemma solved_permutation:
  assumes "is_board s" and "is_solved s generate_constraints"
    and "\<forall>v. set (dom_of s v) \<subseteq> set digits" and c: "c \<in> set generate_constraints"
  shows "distinct (concat (map (dom_of s) c)) \<and> set (concat (map (dom_of s) c)) = set digits"
proof -
  let ?h = "\<lambda>v. hd (dom_of s v)"
  have wf: "wf_groups s generate_constraints" using assms(1) by (rule wf_groups_generate)
  have single: "dom_of s x = [?h x]" if "x \<in> set c" for x
  proof -
    from that c wf have "x \<in> set (keys s)" by (auto dest: wf_groups_mem)
    with assms(2) have "length (dom_of s x) = 1"
      by (simp add: is_solved_def is_board_complete_def list_all_iff)
    then show ?thesis by (cases "dom_of s x") auto
  qed
  then have eq: "concat (map (dom_of s) c) = map ?h c"
    by (induction c) auto
  from solved_gives_assignment[OF shrinks_refl assms(2) wf]
  have "satisfies generate_constraints ?h" ..
  then have d: "distinct (map ?h c)"
    using c by (simp add: satisfies_iff_distinct[OF distinct_groups] list_all_iff)
  have sub: "set (map ?h c) \<subseteq> set digits"
  proof
    fix a assume "a \<in> set (map ?h c)"
    then obtain x where x: "x \<in> set c" "a = ?h x" by auto
    from single[OF x(1)] have "a \<in> set (dom_of s x)" using x(2) by (metis list.set_intros(1))
    with assms(3) show "a \<in> set digits" by blast
  qed
  have "card (set (map ?h c)) = length (map ?h c)" using d by (rule distinct_card)
  also have "\<dots> = 9" using c length_groups by simp
  finally have "card (set (map ?h c)) = 9" .
  moreover have "card (set digits) = 9" by (simp add: digits_def)
  ultimately have "set (map ?h c) = set digits"
    using sub by (simp add: card_subset_eq)
  with d eq show ?thesis by simp
qed

lemma solve_output_permutation:
  assumes "is_board b" and "\<not> is_board_complete b" and "\<forall>v. set (dom_of b v) \<subseteq> set digits"
    and "solve b generate_constraints = Inr (Some s)" and "c \<in> set generate_constraints"
  shows "is_board_complete s \<and> distinct (concat (map (dom_of s) c)) \<and>
         set (concat (map (dom_of s) c)) = set digits"
proof -
  from solve_output_solved[OF assms(1,2,4)]
  have s: "is_solved s generate_constraints" "shrinks b s" by simp_all
  have "is_board s" using assms(1) s(2) by (rule is_board_shrinks)
  moreover have "\<forall>v. set (dom_of s v) \<subseteq> set digits"
    using s(2) assms(3) unfolding shrinks_def by blast
  ultimately show ?thesis
    using solved_permutation[OF _ s(1) _ assms(5)] s(1) by (simp add: is_solved_def)
qed

lemma is_board_all_ones: "is_board all_ones"
  by (simp add: all_ones_def is_board_board_from)

lemma is_board_complete_all_ones: "is_board_complete all_ones"
  by (simp add: is_board_complete_def all_ones_def keys_board_from dom_of_board_from list_all_iff)

lemma solve_all_ones: "solve all_ones generate_constraints = Inr (Some all_ones)"
  by (subst solve.simps) (simp add: is_board_complete_all_ones)

lemma all_ones_unsolvable: "\<not> (\<exists>\<sigma>. picks all_ones \<sigma> \<and> satisfies generate_constraints \<sigma>)"
proof
  assume "\<exists>\<sigma>. picks all_ones \<sigma> \<and> satisfies generate_constraints \<sigma>"
  then obtain \<sigma> where p: "picks all_ones \<sigma>" and s: "satisfies generate_constraints \<sigma>" by blast
  have c: "''A1'' \<in> set cells" "''A2'' \<in> set cells"
    by (simp_all add: mem_cells rows_def columns_def)
  with p have "\<sigma> ''A1'' = ''1''" "\<sigma> ''A2'' = ''1''"
    by (simp_all add: picks_def all_ones_def keys_board_from dom_of_board_from)
  moreover have "(''A1'', ''A2'') \<in> set (initial_queue generate_constraints)"
    by (rule same_row_arc) (simp_all add: rows_def columns_def)
  then have "\<sigma> ''A1'' \<noteq> \<sigma> ''A2''"
    using s by (auto simp: in_initial_queue satisfies_def)
  ultimately show False by simp
qed

section \<open>Claims about the search\<close>

text \<open>
  C1, search completeness.  The source does not do what the claim and the docstring of
  \<open>solve\<close> say on a board that is complete when it is given: the check at the top of
  \<open>solve\<close> returns any board whose domains all have one value, without looking at the
  groups.  On the board of 81 cells that all hold \<open>1\<close> no assignment satisfies the groups,
  and \<open>solve\<close> returns the board.  (On a board that is not complete the claim holds:
  \<open>solve_finds_solution\<close>, \<open>solve_exhausts\<close>, \<open>solve_total\<close>.)
\<close>

theorem solve_returns_unsolvable_board:
  "is_board all_ones \<and>
   \<not> (\<exists>\<sigma>. picks all_ones \<sigma> \<and> satisfies generate_constraints \<sigma>) \<and>
   solve all_ones generate_constraints = Inr (Some all_ones)"
  using is_board_all_ones all_ones_unsolvable solve_all_ones by blast

theorem solve_returns_unsolvable_board_witness:
  "is_board all_ones \<and> solve all_ones generate_constraints \<noteq> Inr None"
  using solve_returns_unsolvable_board by simp

text \<open>
  C2, constraint satisfaction of the output.  The same defect: the board of 81 cells that
  all hold \<open>1\<close> is returned by the check at the top of \<open>solve\<close>, and the nine values of
  its first group, row \<open>A\<close>, are nine times \<open>1\<close>.  (A board returned for an input that is
  not complete and holds digits only is solved, and every group of it is a permutation
  of the digits: \<open>solve_output_solved\<close>, \<open>solve_output_permutation\<close>.)
\<close>

theorem solve_output_repeats_value:
  "solve all_ones generate_constraints = Inr (Some all_ones) \<and>
   is_board_complete all_ones \<and>
   hd generate_constraints =
     [''A1'', ''A2'', ''A3'', ''A4'', ''A5'', ''A6'', ''A7'', ''A8'', ''A9''] \<and>
   concat (map (dom_of all_ones) (hd generate_constraints)) = replicate 9 ''1''"
proof -
  have "hd generate_constraints =
     [''A1'', ''A2'', ''A3'', ''A4'', ''A5'', ''A6'', ''A7'', ''A8'', ''A9'']"
    unfolding generate_constraints_eval by simp
  moreover have "concat (map (dom_of all_ones)
     [''A1'', ''A2'', ''A3'', ''A4'', ''A5'', ''A6'', ''A7'', ''A8'', ''A9'']) = replicate 9 ''1''"
    by (simp add: dom_of_all_ones mem_cells rows_def columns_def numeral_eq_Suc)
  ultimately show ?thesis
    using solve_all_ones is_board_complete_all_ones by simp
qed

section \<open>The search on a store of objects\<close>

text \<open>
  Whether \<open>solve\<close> leaves the caller's board alone depends on which objects its copy
  shares with the board, which the functions above cannot say: they take a board as a
  value.  Here the same source is read on a store.  A dict object holds, for each key,
  the address of a set object; a set object holds its values.  The store numbers the
  objects of each kind in the order of their creation, and \<open>next_set\<close> and \<open>next_dict\<close> are
  the addresses that the next new objects get.
\<close>

record store =
  set_at :: "nat \<Rightarrow> domain"
  dict_at :: "nat \<Rightarrow> (var \<times> nat) list"
  next_set :: nat
  next_dict :: nat

text \<open>The board that the dict at address \<open>d\<close> holds in the store.\<close>

definition board_at :: "store \<Rightarrow> nat \<Rightarrow> board" where
  "board_at st d = map (\<lambda>(k, a). (k, set_at st a)) (dict_at st d)"

text \<open>\<open>board[k]\<close>, which gives the set object stored under \<open>k\<close>.\<close>

definition h_getitem :: "store \<Rightarrow> nat \<Rightarrow> var \<Rightarrow> error + nat" where
  "h_getitem st d k = (case map_of (dict_at st d) k of None \<Rightarrow> Inl KeyError | Some a \<Rightarrow> Inr a)"

text \<open>\<open>s.discard(x)\<close> on the set object at address \<open>a\<close>.\<close>

definition h_discard :: "nat \<Rightarrow> val \<Rightarrow> store \<Rightarrow> store" where
  "h_discard a x st = st\<lparr>set_at := (set_at st)(a := discard x (set_at st a))\<rparr>"

text \<open>A new set object, and a new dict object.\<close>

definition new_set :: "domain \<Rightarrow> store \<Rightarrow> nat \<times> store" where
  "new_set vs st =
     (next_set st, st\<lparr>set_at := (set_at st)(next_set st := vs), next_set := Suc (next_set st)\<rparr>)"

definition new_dict :: "(var \<times> nat) list \<Rightarrow> store \<Rightarrow> nat \<times> store" where
  "new_dict items st =
     (next_dict st,
      st\<lparr>dict_at := (dict_at st)(next_dict st := items), next_dict := Suc (next_dict st)\<rparr>)"

text \<open>\<open>board[k] = s\<close> for a set object \<open>s\<close>.\<close>

definition h_setitem :: "nat \<Rightarrow> var \<Rightarrow> nat \<Rightarrow> store \<Rightarrow> store" where
  "h_setitem d k a st = st\<lparr>dict_at := (dict_at st)(d := setitem (dict_at st d) k a)\<rparr>"

text \<open>
  \<open>revise_arc_consistency\<close> and \<open>ac3\<close> on the store.  They return the store with their
  result, also when they raise.
\<close>

fun h_revise_loop ::
  "var \<Rightarrow> var \<Rightarrow> val list \<Rightarrow> nat \<Rightarrow> bool \<Rightarrow> store \<Rightarrow> (error + bool) \<times> store" where
  "h_revise_loop Xi Xj [] d removed st = (Inr removed, st)"
| "h_revise_loop Xi Xj (x # xs) d removed st =
     (case h_getitem st d Xj of
        Inl e \<Rightarrow> (Inl e, st)
      | Inr aj \<Rightarrow>
          if \<not> list_ex (\<lambda>y. x \<noteq> y) (set_at st aj) then
            (case h_getitem st d Xi of
               Inl e \<Rightarrow> (Inl e, st)
             | Inr ai \<Rightarrow> h_revise_loop Xi Xj xs d True (h_discard ai x st))
          else h_revise_loop Xi Xj xs d removed st)"

definition h_revise_arc_consistency ::
  "var \<Rightarrow> var \<Rightarrow> nat \<Rightarrow> store \<Rightarrow> (error + bool) \<times> store" where
  "h_revise_arc_consistency Xi Xj d st =
     (case h_getitem st d Xi of
        Inl e \<Rightarrow> (Inl e, st)
      | Inr ai \<Rightarrow> h_revise_loop Xi Xj (set_at st ai) d False st)"

text \<open>The sum of the sizes of the sets of a dict, entry by entry.\<close>

definition h_size :: "store \<Rightarrow> nat \<Rightarrow> nat" where
  "h_size st d = sum_list (map (\<lambda>(k, a). length (set_at st a)) (dict_at st d))"

lemma h_getitem_Inr: "h_getitem st d k = Inr a \<longleftrightarrow> map_of (dict_at st d) k = Some a"
  by (auto simp: h_getitem_def split: option.splits)

lemma dict_at_h_discard [simp]: "dict_at (h_discard a x st) = dict_at st"
  by (simp add: h_discard_def)

lemma next_h_discard [simp]:
  "next_set (h_discard a x st) = next_set st" "next_dict (h_discard a x st) = next_dict st"
  by (simp_all add: h_discard_def)

lemma set_at_h_discard:
  "set_at (h_discard a x st) a' = (if a' = a then discard x (set_at st a) else set_at st a')"
  by (simp add: h_discard_def)

lemma h_size_h_discard_le: "h_size (h_discard a x st) d \<le> h_size st d"
  unfolding h_size_def dict_at_h_discard
  by (rule sum_list_mono) (auto simp: set_at_h_discard length_discard_le split: prod.splits)

lemma sum_list_strict:
  assumes "\<And>p. p \<in> set ps \<Longrightarrow> f p \<le> (g p :: nat)" and "q \<in> set ps" and "f q < g q"
  shows "sum_list (map f ps) < sum_list (map g ps)"
  using assms
proof (induction ps)
  case Nil
  then show ?case by simp
next
  case (Cons p ps)
  show ?case
  proof (cases "f p < g p")
    case True
    have "sum_list (map f ps) \<le> sum_list (map g ps)"
      by (rule sum_list_mono) (use Cons.prems in auto)
    with True show ?thesis by simp
  next
    case False
    with Cons.prems have "q \<in> set ps" by auto
    from Cons.IH[OF _ this Cons.prems(3)] Cons.prems(1) have "sum_list (map f ps) < sum_list (map g ps)"
      by auto
    moreover have "f p \<le> g p" using Cons.prems(1) by auto
    ultimately show ?thesis by simp
  qed
qed

lemma h_size_h_discard_less:
  assumes "map_of (dict_at st d) k = Some a" and "x \<in> set (set_at st a)"
  shows "h_size (h_discard a x st) d < h_size st d"
proof -
  have "(k, a) \<in> set (dict_at st d)" using assms(1) by (rule map_of_SomeD)
  then show ?thesis
    unfolding h_size_def dict_at_h_discard
    by (rule sum_list_strict[rotated])
       (use assms(2) in \<open>auto simp: set_at_h_discard length_discard_le length_discard_less\<close>)
qed

lemma h_revise_loop_True:
  "h_revise_loop Xi Xj xs d True st = (Inr r', st') \<Longrightarrow> r'"
  by (induction Xi Xj xs d "True" st rule: h_revise_loop.induct)
     (auto split: sum.splits if_splits)

lemma h_revise_loop_size:
  "h_revise_loop Xi Xj xs d r st = (Inr r', st') \<Longrightarrow> map_of (dict_at st d) Xi = Some ai \<Longrightarrow>
   (\<not> r \<longrightarrow> set xs \<subseteq> set (set_at st ai)) \<Longrightarrow>
   h_size st' d \<le> h_size st d \<and> (r' \<and> \<not> r \<longrightarrow> h_size st' d < h_size st d) \<and> (\<not> r' \<longrightarrow> st' = st)"
proof (induction Xi Xj xs d r st rule: h_revise_loop.induct)
  case (1 Xi Xj d removed st)
  then show ?case by simp
next
  case (2 Xi Xj x xs d removed st)
  from "2.prems"(1) obtain aj where aj: "h_getitem st d Xj = Inr aj"
    by (auto split: sum.splits)
  have gi: "h_getitem st d Xi = Inr ai" using "2.prems"(2) by (simp add: h_getitem_Inr)
  show ?case
  proof (cases "list_ex (\<lambda>y. x \<noteq> y) (set_at st aj)")
    case True
    with "2.prems" aj have run: "h_revise_loop Xi Xj xs d removed st = (Inr r', st')" by simp
    from "2.prems"(3) have "\<not> removed \<longrightarrow> set xs \<subseteq> set (set_at st ai)" by auto
    from "2.IH"(2)[OF aj _ run "2.prems"(2) this] True show ?thesis by simp
  next
    case False
    let ?st1 = "h_discard ai x st"
    from "2.prems"(1) aj gi False have run: "h_revise_loop Xi Xj xs d True ?st1 = (Inr r', st')"
      by simp
    have m1: "map_of (dict_at ?st1 d) Xi = Some ai" using "2.prems"(2) by simp
    from "2.IH"(1)[OF aj _ gi run m1] False have ih: "h_size st' d \<le> h_size ?st1 d" by simp
    note le = h_size_h_discard_le[of ai x st d]
    have lt: "\<not> removed \<Longrightarrow> h_size ?st1 d < h_size st d"
    proof -
      assume "\<not> removed"
      with "2.prems"(3) have "x \<in> set (set_at st ai)" by auto
      from h_size_h_discard_less[OF "2.prems"(2) this] show ?thesis .
    qed
    have r': "r'" using run by (rule h_revise_loop_True)
    show ?thesis using ih le lt r' by auto
  qed
qed

lemma h_revise_size:
  assumes "h_revise_arc_consistency Xi Xj d st = (Inr r', st')"
  shows "(r' \<longrightarrow> h_size st' d < h_size st d) \<and> (\<not> r' \<longrightarrow> st' = st)"
proof -
  from assms obtain ai where ai: "h_getitem st d Xi = Inr ai"
    and run: "h_revise_loop Xi Xj (set_at st ai) d False st = (Inr r', st')"
    by (auto simp: h_revise_arc_consistency_def split: sum.splits)
  from ai have "map_of (dict_at st d) Xi = Some ai" by (simp add: h_getitem_Inr)
  from h_revise_loop_size[OF run this] show ?thesis by auto
qed

function h_ac3_loop ::
  "(var \<times> var) list \<Rightarrow> nat \<Rightarrow> constraints \<Rightarrow> store \<Rightarrow> (error + bool) \<times> store" where
  "h_ac3_loop [] d cs st = (Inr True, st)"
| "h_ac3_loop ((Xi, Xj) # queue) d cs st =
     (case h_revise_arc_consistency Xi Xj d st of
        (Inl e, st') \<Rightarrow> (Inl e, st')
      | (Inr removed, st') \<Rightarrow>
          if removed then
            (case h_getitem st' d Xi of
               Inl e \<Rightarrow> (Inl e, st')
             | Inr ai \<Rightarrow>
                 if length (set_at st' ai) = 0 then (Inr False, st')
                 else h_ac3_loop (queue @ enqueue Xi Xj cs) d cs st')
          else h_ac3_loop queue d cs st')"
  by pat_completeness auto
termination
proof (relation "measures [\<lambda>(q, d, cs, st). h_size st d, \<lambda>(q, d, cs, st). length q]")
qed (auto dest: h_revise_size[OF sym])

definition h_ac3 :: "nat \<Rightarrow> constraints \<Rightarrow> store \<Rightarrow> (error + bool) \<times> store" where
  "h_ac3 d cs st = h_ac3_loop (initial_queue cs) d cs st"

text \<open>
  The heuristics read the board and write nothing: on the store they are the functions
  above, applied to the board that the dict holds, and they return the store they got.
\<close>

definition h_mrv :: "nat \<Rightarrow> store \<Rightarrow> var option \<times> store" where
  "h_mrv d st = (mrv (board_at st d), st)"

definition h_degree_heuristic :: "nat \<Rightarrow> constraints \<Rightarrow> store \<Rightarrow> var option \<times> store" where
  "h_degree_heuristic d cs st = (degree_heuristic (board_at st d) cs, st)"

text \<open>
  \<open>{v: board[v].copy() for v in board}\<close>: a new set object for every key, holding the
  values of the set of the board, and then a new dict object.
\<close>

fun h_copy_loop ::
  "var list \<Rightarrow> nat \<Rightarrow> (var \<times> nat) list \<Rightarrow> store \<Rightarrow> (error + (var \<times> nat) list) \<times> store" where
  "h_copy_loop [] d acc st = (Inr acc, st)"
| "h_copy_loop (v # vs) d acc st =
     (case h_getitem st d v of
        Inl e \<Rightarrow> (Inl e, st)
      | Inr a \<Rightarrow>
          (case new_set (set_at st a) st of
             (a', st') \<Rightarrow> h_copy_loop vs d (setitem acc v a') st'))"

definition h_copy :: "nat \<Rightarrow> store \<Rightarrow> (error + nat) \<times> store" where
  "h_copy d st =
     (case h_copy_loop (keys (dict_at st d)) d [] st of
        (Inl e, st') \<Rightarrow> (Inl e, st')
      | (Inr items, st') \<Rightarrow> (case new_dict items st' of (d', st'') \<Rightarrow> (Inr d', st'')))"

text \<open>
  The loop over the values of the chosen cell, with the store passed from one round to
  the next.  \<open>None\<close> is a recursion that did not end within the fuel given.
\<close>

fun h_try_values ::
  "(val \<Rightarrow> store \<Rightarrow> ((error + nat option) \<times> store) option) \<Rightarrow> val list \<Rightarrow> store \<Rightarrow>
     ((error + nat option) \<times> store) option" where
  "h_try_values body [] st = Some (Inr None, st)"
| "h_try_values body (vl # rest) st =
     (case body vl st of
        None \<Rightarrow> None
      | Some (Inl e, st') \<Rightarrow> Some (Inl e, st')
      | Some (Inr (Some solution), st') \<Rightarrow> Some (Inr (Some solution), st')
      | Some (Inr None, st') \<Rightarrow> h_try_values body rest st')"

text \<open>
  One round of that loop: copy the board, give the chosen cell a new set of one value,
  run \<open>ac3\<close> on the copy, and search on.  \<open>search\<close> is the recursive call.
\<close>

definition h_branch ::
  "(nat \<Rightarrow> constraints \<Rightarrow> store \<Rightarrow> ((error + nat option) \<times> store) option) \<Rightarrow>
   nat \<Rightarrow> constraints \<Rightarrow> var \<Rightarrow> val \<Rightarrow> store \<Rightarrow> ((error + nat option) \<times> store) option" where
  "h_branch search d cs var vl st =
     (case h_copy d st of
        (Inl e, st1) \<Rightarrow> Some (Inl e, st1)
      | (Inr board_copy, st1) \<Rightarrow>
          (case new_set [vl] st1 of
             (a, st2) \<Rightarrow>
               (case h_ac3 board_copy cs (h_setitem board_copy var a st2) of
                  (Inl e, st3) \<Rightarrow> Some (Inl e, st3)
                | (Inr consistent, st3) \<Rightarrow>
                    if consistent then
                      (case search board_copy cs st3 of
                         None \<Rightarrow> None
                       | Some (Inl e, st4) \<Rightarrow> Some (Inl e, st4)
                       | Some (Inr None, st4) \<Rightarrow> Some (Inr None, st4)
                       | Some (Inr (Some solution), st4) \<Rightarrow>
                           if dict_at st4 solution \<noteq> [] then Some (Inr (Some solution), st4)
                           else Some (Inr None, st4))
                    else Some (Inr None, st3))))"

text \<open>
  \<open>solve\<close> on the store, with fuel for the depth of the recursion.  It returns the
  address of the board it was given, or of the copy that a deeper call returned.
\<close>

primrec h_solve ::
  "nat \<Rightarrow> nat \<Rightarrow> constraints \<Rightarrow> store \<Rightarrow> ((error + nat option) \<times> store) option" where
  "h_solve 0 d cs st = None"
| "h_solve (Suc n) d cs st =
     (if is_board_complete (board_at st d) then Some (Inr (Some d), st)
      else
        (case h_mrv d st of
           (m, st1) \<Rightarrow>
             (case (if truthy m then (m, st1) else h_degree_heuristic d cs st1) of
                (None, st2) \<Rightarrow> Some (Inr None, st2)
              | (Some var, st2) \<Rightarrow>
                  if var = [] then Some (Inr None, st2)
                  else
                    (case h_getitem st2 d var of
                       Inl e \<Rightarrow> Some (Inl e, st2)
                     | Inr a \<Rightarrow> h_try_values (h_branch (h_solve n) d cs var) (set_at st2 a) st2))))"

subsection \<open>What a call leaves unchanged\<close>

text \<open>
  \<open>frame st st'\<close>: every object that exists in \<open>st\<close> is the same in \<open>st'\<close>; the store
  \<open>st'\<close> may hold new objects.
\<close>

definition frame :: "store \<Rightarrow> store \<Rightarrow> bool" where
  "frame st st' =
     (next_set st \<le> next_set st' \<and> next_dict st \<le> next_dict st' \<and>
      (\<forall>a. a < next_set st \<longrightarrow> set_at st' a = set_at st a) \<and>
      (\<forall>d. d < next_dict st \<longrightarrow> dict_at st' d = dict_at st d))"

lemma frame_refl: "frame st st"
  by (simp add: frame_def)

lemma frame_trans: "frame st1 st2 \<Longrightarrow> frame st2 st3 \<Longrightarrow> frame st1 st3"
  unfolding frame_def by (metis (no_types, lifting) le_trans less_le_trans)

text \<open>\<open>touches st st' A\<close>: the stores differ at most in the sets at the addresses \<open>A\<close>.\<close>

definition touches :: "store \<Rightarrow> store \<Rightarrow> nat set \<Rightarrow> bool" where
  "touches st st' A =
     (dict_at st' = dict_at st \<and> next_set st' = next_set st \<and> next_dict st' = next_dict st \<and>
      (\<forall>a. a \<notin> A \<longrightarrow> set_at st' a = set_at st a))"

lemma touches_refl: "touches st st A"
  by (simp add: touches_def)

lemma touches_trans: "touches st1 st2 A \<Longrightarrow> touches st2 st3 A \<Longrightarrow> touches st1 st3 A"
  by (simp add: touches_def)

lemma touches_h_discard: "a \<in> A \<Longrightarrow> touches st (h_discard a x st) A"
  by (auto simp: touches_def set_at_h_discard)

definition addresses :: "store \<Rightarrow> nat \<Rightarrow> nat set" where
  "addresses st d = snd ` set (dict_at st d)"

lemma addresses_touches: "touches st st' A \<Longrightarrow> addresses st' d = addresses st d"
  by (simp add: touches_def addresses_def)

lemma h_getitem_address: "h_getitem st d k = Inr a \<Longrightarrow> a \<in> addresses st d"
  unfolding h_getitem_Inr addresses_def by (force dest: map_of_SomeD)

lemma h_revise_loop_touches:
  "h_revise_loop Xi Xj xs d r st = (res, st') \<Longrightarrow> touches st st' (addresses st d)"
proof (induction Xi Xj xs d r st rule: h_revise_loop.induct)
  case (1 Xi Xj d removed st)
  then show ?case by (simp add: touches_refl)
next
  case (2 Xi Xj x xs d removed st)
  show ?case
  proof (cases "h_getitem st d Xj")
    case (Inl e)
    with "2.prems" show ?thesis by (simp add: touches_refl)
  next
    case (Inr aj)
    show ?thesis
    proof (cases "list_ex (\<lambda>y. x \<noteq> y) (set_at st aj)")
      case True
      with "2.prems" Inr have "h_revise_loop Xi Xj xs d removed st = (res, st')" by simp
      from "2.IH"(2)[OF Inr _ this] True show ?thesis by simp
    next
      case False
      show ?thesis
      proof (cases "h_getitem st d Xi")
        case (Inl e)
        with "2.prems" Inr False show ?thesis by (simp add: touches_refl)
      next
        case ai: (Inr ai)
        let ?st1 = "h_discard ai x st"
        from "2.prems" Inr False ai have run: "h_revise_loop Xi Xj xs d True ?st1 = (res, st')"
          by simp
        have t1: "touches st ?st1 (addresses st d)"
          by (rule touches_h_discard[OF h_getitem_address[OF ai]])
        from "2.IH"(1)[OF Inr _ ai run] False
        have "touches ?st1 st' (addresses ?st1 d)" by simp
        then have "touches ?st1 st' (addresses st d)"
          using addresses_touches[OF t1] by simp
        with t1 show ?thesis by (rule touches_trans)
      qed
    qed
  qed
qed

lemma h_revise_touches:
  "h_revise_arc_consistency Xi Xj d st = (res, st') \<Longrightarrow> touches st st' (addresses st d)"
  unfolding h_revise_arc_consistency_def
  by (auto split: sum.splits simp: touches_refl dest: h_revise_loop_touches)

lemma h_ac3_loop_touches:
  "h_ac3_loop q d cs st = (res, st') \<Longrightarrow> touches st st' (addresses st d)"
proof (induction q d cs st rule: h_ac3_loop.induct)
  case (1 d cs st)
  then show ?case by (simp add: touches_refl)
next
  case (2 Xi Xj queue d cs st)
  obtain r1 st1 where rv: "h_revise_arc_consistency Xi Xj d st = (r1, st1)"
    by (cases "h_revise_arc_consistency Xi Xj d st")
  note t1 = h_revise_touches[OF rv]
  note a1 = addresses_touches[OF t1]
  show ?case
  proof (cases r1)
    case (Inl e)
    with "2.prems" rv t1 show ?thesis by simp
  next
    case (Inr removed)
    show ?thesis
    proof (cases removed)
      case False
      with "2.prems" rv Inr have run: "h_ac3_loop queue d cs st1 = (res, st')" by simp
      from "2.IH"(2)[OF rv[symmetric] Inr False run] a1 t1 show ?thesis
        by (auto intro: touches_trans)
    next
      case True
      show ?thesis
      proof (cases "h_getitem st1 d Xi")
        case (Inl e)
        with "2.prems" rv Inr True t1 show ?thesis by simp
      next
        case ai: (Inr ai)
        show ?thesis
        proof (cases "length (set_at st1 ai) = 0")
          case empty: True
          with "2.prems" rv Inr True ai t1 show ?thesis by simp
        next
          case nonempty: False
          with "2.prems" rv Inr True ai
          have run: "h_ac3_loop (queue @ enqueue Xi Xj cs) d cs st1 = (res, st')" by simp
          from "2.IH"(1)[OF rv[symmetric] Inr True ai nonempty run] a1 t1 show ?thesis
            by (auto intro: touches_trans)
        qed
      qed
    qed
  qed
qed

lemma h_ac3_touches: "h_ac3 d cs st = (res, st') \<Longrightarrow> touches st st' (addresses st d)"
  unfolding h_ac3_def by (rule h_ac3_loop_touches)

lemma snd_set_setitem: "snd ` set (setitem ps k v) \<subseteq> insert v (snd ` set ps)"
  by (induction ps k v rule: setitem.induct) auto

lemma frame_new_set:
  assumes "new_set vs st = (a, st')"
  shows "frame st st'" and "a = next_set st" and "next_set st' = Suc (next_set st)"
    and "next_dict st' = next_dict st" and "dict_at st' = dict_at st"
    and "set_at st' (next_set st) = vs"
  using assms by (auto simp: new_set_def frame_def)

lemma h_copy_loop_effect:
  "h_copy_loop vs d acc st = (res, st') \<Longrightarrow>
   frame st st' \<and> next_dict st' = next_dict st \<and> dict_at st' = dict_at st \<and>
   (\<forall>items. res = Inr items \<longrightarrow>
      snd ` set items \<subseteq> snd ` set acc \<union> {next_set st ..< next_set st'})"
proof (induction vs d acc st rule: h_copy_loop.induct)
  case (1 d acc st)
  then show ?case by (auto simp: frame_refl)
next
  case (2 v vs d acc st)
  show ?case
  proof (cases "h_getitem st d v")
    case (Inl e)
    with "2.prems" show ?thesis by (auto simp: frame_refl)
  next
    case (Inr a)
    obtain a' st1 where ns: "new_set (set_at st a) st = (a', st1)"
      by (cases "new_set (set_at st a) st")
    note f1 = frame_new_set[OF ns]
    from "2.prems" Inr ns have run: "h_copy_loop vs d (setitem acc v a') st1 = (res, st')"
      by simp
    from "2.IH"[OF Inr ns[symmetric] run]
    have ih: "frame st1 st'" "next_dict st' = next_dict st1" "dict_at st' = dict_at st1"
      "\<forall>items. res = Inr items \<longrightarrow>
        snd ` set items \<subseteq> snd ` set (setitem acc v a') \<union> {next_set st1 ..< next_set st'}"
      by simp_all
    have le: "next_set st1 \<le> next_set st'" using ih(1) by (simp add: frame_def)
    have "snd ` set items \<subseteq> snd ` set acc \<union> {next_set st ..< next_set st'}"
      if "res = Inr items" for items
    proof -
      from ih(4) that have "snd ` set items \<subseteq>
          snd ` set (setitem acc v a') \<union> {next_set st1 ..< next_set st'}" by simp
      also have "\<dots> \<subseteq> insert a' (snd ` set acc) \<union> {next_set st1 ..< next_set st'}"
        using snd_set_setitem[of acc v a'] by auto
      also have "\<dots> \<subseteq> snd ` set acc \<union> {next_set st ..< next_set st'}"
        using f1 le by auto
      finally show ?thesis .
    qed
    with f1 ih frame_trans[of st st1 st'] show ?thesis by simp
  qed
qed

lemma frame_new_dict:
  assumes "new_dict items st = (d, st')"
  shows "frame st st'" and "d = next_dict st" and "next_dict st' = Suc (next_dict st)"
    and "next_set st' = next_set st" and "set_at st' = set_at st"
    and "dict_at st' (next_dict st) = items"
  using assms by (auto simp: new_dict_def frame_def)

lemma h_copy_effect:
  assumes "h_copy d st = (res, st')"
  shows "frame st st' \<and>
         (\<forall>d'. res = Inr d' \<longrightarrow> d' = next_dict st \<and> next_dict st' = Suc d' \<and>
            addresses st' d' \<subseteq> {next_set st ..< next_set st'})"
proof -
  obtain r1 st1 where lp: "h_copy_loop (keys (dict_at st d)) d [] st = (r1, st1)"
    by (cases "h_copy_loop (keys (dict_at st d)) d [] st")
  note e1 = h_copy_loop_effect[OF lp]
  show ?thesis
  proof (cases r1)
    case (Inl e)
    with assms lp e1 show ?thesis by (auto simp: h_copy_def)
  next
    case (Inr items)
    obtain d' st2 where nd: "new_dict items st1 = (d', st2)" by (cases "new_dict items st1")
    note e2 = frame_new_dict[OF nd]
    from assms lp Inr nd have res: "res = Inr d'" "st' = st2" by (simp_all add: h_copy_def)
    from e1 Inr have "snd ` set items \<subseteq> {next_set st ..< next_set st1}" by simp
    with e2 have "addresses st2 d' \<subseteq> {next_set st ..< next_set st2}"
      unfolding addresses_def by simp
    with res e1 e2 frame_trans[of st st1 st2] show ?thesis by simp
  qed
qed

lemma h_branch_frame:
  assumes search: "\<And>d st r st'. search d cs st = Some (r, st') \<Longrightarrow> frame st st'"
    and run: "h_branch search d cs var vl st = Some (r, st')"
  shows "frame st st'"
proof -
  obtain r1 st1 where cp: "h_copy d st = (r1, st1)" by (cases "h_copy d st")
  note e1 = h_copy_effect[OF cp]
  show ?thesis
  proof (cases r1)
    case (Inl e)
    with run cp e1 show ?thesis by (simp add: h_branch_def)
  next
    case (Inr d')
    with e1 have f1: "frame st st1" and d': "d' = next_dict st" "next_dict st1 = Suc d'"
      and fresh: "addresses st1 d' \<subseteq> {next_set st ..< next_set st1}"
      by blast+
    obtain a st2 where ns: "new_set [vl] st1 = (a, st2)" by (cases "new_set [vl] st1")
    note e2 = frame_new_set[OF ns]
    let ?st2' = "h_setitem d' var a st2"
    have addr: "addresses ?st2' d' \<subseteq> {next_set st ..< next_set st2}"
    proof -
      have "addresses ?st2' d' = snd ` set (setitem (dict_at st1 d') var a)"
        using e2 by (simp add: addresses_def h_setitem_def)
      also have "\<dots> \<subseteq> insert a (addresses st1 d')"
        unfolding addresses_def by (rule snd_set_setitem)
      also have "\<dots> \<subseteq> {next_set st ..< next_set st2}"
        using fresh e2 f1 by (auto simp: frame_def)
      finally show ?thesis .
    qed
    have f2: "frame st ?st2'"
      using f1 e2 d' unfolding frame_def h_setitem_def by auto
    obtain r3 st3 where ac: "h_ac3 d' cs ?st2' = (r3, st3)" by (cases "h_ac3 d' cs ?st2'")
    have f3': "frame st st3"
    proof -
      from h_ac3_touches[OF ac] have t: "touches ?st2' st3 (addresses ?st2' d')" .
      have "set_at st3 x = set_at st x" if "x < next_set st" for x
      proof -
        from that addr have "x \<notin> addresses ?st2' d'" by auto
        with t have "set_at st3 x = set_at ?st2' x" by (simp add: touches_def)
        with f2 that show ?thesis by (simp add: frame_def)
      qed
      with t f2 show ?thesis unfolding touches_def frame_def by simp
    qed
    show ?thesis
    proof (cases r3)
      case (Inl e)
      with run cp Inr ns ac f3' show ?thesis by (simp add: h_branch_def)
    next
      case ok: (Inr consistent)
      show ?thesis
      proof (cases consistent)
        case False
        with run cp Inr ns ac ok f3' show ?thesis by (simp add: h_branch_def)
      next
        case True
        with run cp Inr ns ac ok obtain r4 st4 where
          s4: "search d' cs st3 = Some (r4, st4)" and st': "st' = st4"
          by (auto simp: h_branch_def split: option.splits sum.splits if_splits)
        from search[OF s4] f3' st' show ?thesis by (auto intro: frame_trans)
      qed
    qed
  qed
qed

lemma h_try_values_frame:
  assumes "\<And>vl st r st'. body vl st = Some (r, st') \<Longrightarrow> frame st st'"
    and "h_try_values body vs st = Some (r, st')"
  shows "frame st st'"
  using assms(2)
proof (induction vs arbitrary: st)
  case Nil
  then show ?case by (simp add: frame_refl)
next
  case (Cons vl vs)
  from Cons.prems obtain r1 st1 where b: "body vl st = Some (r1, st1)"
    by (auto split: option.splits)
  note f1 = assms(1)[OF b]
  show ?case
  proof (cases "r1 = Inr None")
    case True
    with Cons.prems b have "h_try_values body vs st1 = Some (r, st')" by simp
    from Cons.IH[OF this] f1 show ?thesis by (rule frame_trans[rotated])
  next
    case False
    with Cons.prems b have "st' = st1"
      by (cases r1) (auto split: option.splits)
    with f1 show ?thesis by simp
  qed
qed

lemma h_solve_frame: "h_solve n d cs st = Some (r, st') \<Longrightarrow> frame st st'"
proof (induction n arbitrary: d st r st')
  case 0
  then show ?case by simp
next
  case (Suc n)
  have br: "frame s s'" if "h_branch (h_solve n) d cs var vl s = Some (x, s')" for var vl s x s'
    using that by (rule h_branch_frame[rotated]) (rule Suc.IH)
  show ?case
  proof (cases "is_board_complete (board_at st d)")
    case True
    with Suc.prems show ?thesis by (simp add: frame_refl)
  next
    case False
    let ?sel = "if truthy (mrv (board_at st d)) then mrv (board_at st d)
                else degree_heuristic (board_at st d) cs"
    show ?thesis
    proof (cases ?sel)
      case None
      with Suc.prems False show ?thesis
        by (auto simp: h_mrv_def h_degree_heuristic_def frame_refl split: if_splits)
    next
      case (Some var)
      show ?thesis
      proof (cases "var = [] \<or> (\<exists>e. h_getitem st d var = Inl e)")
        case True
        with Suc.prems False Some show ?thesis
          by (auto simp: h_mrv_def h_degree_heuristic_def frame_refl split: if_splits)
      next
        case ok: False
        then obtain a where a: "h_getitem st d var = Inr a" and ne: "var \<noteq> []"
          by (cases "h_getitem st d var") auto
        from Suc.prems False Some a ne
        have "h_try_values (h_branch (h_solve n) d cs var) (set_at st a) st = Some (r, st')"
          by (auto simp: h_mrv_def h_degree_heuristic_def split: if_splits)
        then show ?thesis by (rule h_try_values_frame[rotated]) (rule br)
      qed
    qed
  qed
qed

subsection \<open>Enough fuel\<close>

text \<open>
  A board of the store is well formed when its dict and its sets exist and its keys are
  distinct, as the keys of a dict are.
\<close>

definition wf_board :: "store \<Rightarrow> nat \<Rightarrow> bool" where
  "wf_board st d =
     (d < next_dict st \<and> list_all (\<lambda>a. a < next_set st) (map snd (dict_at st d)) \<and>
      distinct (keys (dict_at st d)))"

lemma keys_board_at: "keys (board_at st d) = keys (dict_at st d)"
  by (simp add: board_at_def keys_def comp_def split_def)

lemma map_of_board_at:
  "map_of (board_at st d) k = map_option (set_at st) (map_of (dict_at st d) k)"
  unfolding board_at_def by (simp add: map_of_map)

lemma dom_of_board_at:
  "h_getitem st d k = Inr a \<Longrightarrow> dom_of (board_at st d) k = set_at st a"
  by (simp add: dom_of_def map_of_board_at h_getitem_Inr)

lemma h_size_board_at: "h_size st d = sum_list (map (\<lambda>(k, dm). length dm) (board_at st d))"
  by (simp add: h_size_def board_at_def comp_def split_def)

lemma total_size_distinct:
  "distinct (keys b) \<Longrightarrow> total_size b = sum_list (map (\<lambda>(k, dm). length dm) b)"
proof (induction b)
  case Nil
  then show ?case by (simp add: total_size_def keys_def)
next
  case (Cons p b)
  obtain k dm where p: "p = (k, dm)" by (cases p)
  from Cons.prems p have nk: "k \<notin> set (keys b)" and db: "distinct (keys b)"
    by (simp_all add: keys_def)
  have "(\<Sum>x\<in>set (keys b). length (dom_of (p # b) x)) = (\<Sum>x\<in>set (keys b). length (dom_of b x))"
    by (rule sum.cong) (use nk p in \<open>auto simp: dom_of_def\<close>)
  then have "total_size (p # b) = length dm + total_size b"
    using nk p by (simp add: total_size_def keys_def dom_of_def)
  with Cons.IH[OF db] p show ?case by simp
qed

lemma h_size_total: "wf_board st d \<Longrightarrow> h_size st d = total_size (board_at st d)"
  by (simp add: h_size_board_at total_size_distinct keys_board_at wf_board_def)

lemma wf_board_addresses: "wf_board st d \<Longrightarrow> a \<in> addresses st d \<Longrightarrow> a < next_set st"
  by (auto simp: wf_board_def addresses_def list_all_iff)

lemma frame_board_at:
  assumes "wf_board st d" and "frame st s"
  shows "board_at s d = board_at st d \<and> wf_board s d \<and> dict_at s d = dict_at st d"
proof -
  from assms have dd: "dict_at s d = dict_at st d" by (simp add: wf_board_def frame_def)
  have "set_at s a = set_at st a" if "a \<in> addresses st d" for a
    using wf_board_addresses[OF assms(1) that] assms(2) by (simp add: frame_def)
  then have "board_at s d = board_at st d"
    unfolding board_at_def dd addresses_def by (auto simp: split_def)
  moreover have "wf_board s d"
    using assms dd unfolding wf_board_def frame_def list_all_iff by fastforce
  ultimately show ?thesis using dd by simp
qed

lemma map_setitem:
  "map (\<lambda>(k, a). (k, f a)) (setitem ps k v) = setitem (map (\<lambda>(k, a). (k, f a)) ps) k (f v)"
  by (induction ps k v rule: setitem.induct) auto

lemma board_at_h_setitem:
  "board_at (h_setitem d k a st) d = setitem (board_at st d) k (set_at st a)"
  by (simp add: board_at_def h_setitem_def map_setitem)

lemma wf_board_h_setitem:
  assumes "wf_board st d" and "a < next_set st"
  shows "wf_board (h_setitem d k a st) d"
proof -
  have "snd ` set (setitem (dict_at st d) k a) \<subseteq> insert a (snd ` set (dict_at st d))"
    by (rule snd_set_setitem)
  moreover have "distinct (keys (setitem (dict_at st d) k a))"
  proof (cases "k \<in> set (keys (dict_at st d))")
    case True
    then obtain a0 where "map_of (dict_at st d) k = Some a0"
      using map_of_None_keys[of "dict_at st d" k] by (cases "map_of (dict_at st d) k") auto
    from keys_setitem[OF this] assms(1) show ?thesis by (simp add: wf_board_def)
  next
    case False
    from setitem_append_new[OF False] False assms(1) show ?thesis
      by (simp add: wf_board_def keys_def)
  qed
  ultimately show ?thesis
    using assms unfolding wf_board_def h_setitem_def list_all_iff by fastforce
qed

lemma new_set_board_at:
  assumes "wf_board st d" and "new_set vs st = (a, st')"
  shows "board_at st' d = board_at st d \<and> wf_board st' d \<and> a < next_set st' \<and> set_at st' a = vs"
  using frame_board_at[OF assms(1) frame_new_set(1)[OF assms(2)]] frame_new_set[OF assms(2)]
  by simp

text \<open>The copy holds the board that the original holds.\<close>

definition items_board :: "store \<Rightarrow> (var \<times> nat) list \<Rightarrow> board" where
  "items_board st ps = map (\<lambda>(k, a). (k, set_at st a)) ps"

lemma board_at_items: "board_at st d = items_board st (dict_at st d)"
  by (simp add: board_at_def items_board_def)

lemma keys_items_board: "keys (items_board st ps) = keys ps"
  by (simp add: items_board_def keys_def comp_def split_def)

lemma items_board_cong:
  "(\<And>a. a \<in> snd ` set ps \<Longrightarrow> set_at st' a = set_at st a) \<Longrightarrow>
   items_board st' ps = items_board st ps"
  unfolding items_board_def by (auto simp: split_def)

lemma h_copy_loop_view:
  assumes "distinct (keys (fin @ rest))" and "dict_at st d = fin @ rest"
    and "items_board st acc = B" and "keys B = keys fin"
    and "list_all (\<lambda>a. a < next_set st) (map snd acc)"
    and "list_all (\<lambda>a. a < next_set st) (map snd rest)"
  shows "\<exists>items st'. h_copy_loop (keys rest) d acc st = (Inr items, st') \<and>
           items_board st' items = B @ items_board st rest \<and>
           list_all (\<lambda>a. a < next_set st') (map snd items)"
  using assms
proof (induction rest arbitrary: fin acc st B)
  case Nil
  then show ?case by (simp add: keys_def items_board_def)
next
  case (Cons p rest)
  obtain k a0 where p: "p = (k, a0)" by (cases p)
  from Cons.prems(1) p have nk: "k \<notin> set (keys fin)" by (auto simp: keys_def)
  then have "map_of fin k = None" by (simp add: map_of_None_keys)
  then have g: "h_getitem st d k = Inr a0"
    using Cons.prems(2) p by (simp add: h_getitem_def map_add_def)
  obtain a' st1 where ns: "new_set (set_at st a0) st = (a', st1)"
    by (cases "new_set (set_at st a0) st")
  note f1 = frame_new_set[OF ns]
  have ka: "keys acc = keys fin"
    using Cons.prems(3,4) keys_items_board[of st acc] by simp
  with nk have "k \<notin> set (keys acc)" by simp
  then have acc': "setitem acc k a' = acc @ [(k, a')]" by (rule setitem_append_new)
  have old: "set_at st1 x = set_at st x" if "x < next_set st" for x
    using f1 that by (simp add: frame_def)
  have v_acc: "items_board st1 acc = items_board st acc"
    by (rule items_board_cong) (use Cons.prems(5) old in \<open>auto simp: list_all_iff\<close>)
  have v_rest: "items_board st1 rest = items_board st rest"
    by (rule items_board_cong) (use Cons.prems(6) old in \<open>auto simp: list_all_iff\<close>)
  have 1: "distinct (keys ((fin @ [p]) @ rest))" using Cons.prems(1) by simp
  have 2: "dict_at st1 d = (fin @ [p]) @ rest" using Cons.prems(2) f1 by simp
  have "items_board st1 (acc @ [(k, a')]) = items_board st1 acc @ [(k, set_at st1 a')]"
    by (simp add: items_board_def)
  then have 3: "items_board st1 (acc @ [(k, a')]) = B @ [(k, set_at st a0)]"
    unfolding v_acc Cons.prems(3) f1(2) f1(6) .
  have 4: "keys (B @ [(k, set_at st a0)]) = keys (fin @ [p])"
    using Cons.prems(4) p by (simp add: keys_def)
  have 5: "list_all (\<lambda>a. a < next_set st1) (map snd (acc @ [(k, a')]))"
    using Cons.prems(5) f1 by (auto simp: list_all_iff)
  have 6: "list_all (\<lambda>a. a < next_set st1) (map snd rest)"
    using Cons.prems(6) f1 by (auto simp: list_all_iff)
  from Cons.IH[OF 1 2 3 4 5 6] obtain items st' where
    run: "h_copy_loop (keys rest) d (acc @ [(k, a')]) st1 = (Inr items, st')"
    and v: "items_board st' items = (B @ [(k, set_at st a0)]) @ items_board st1 rest"
    and lt: "list_all (\<lambda>a. a < next_set st') (map snd items)"
    by blast
  have "h_copy_loop (keys (p # rest)) d acc st = (Inr items, st')"
    using p g ns acc' run by (simp add: keys_def)
  moreover have "items_board st' items = B @ items_board st (p # rest)"
    using v v_rest p by (simp add: items_board_def)
  ultimately show ?case using lt by blast
qed

lemma h_copy_view:
  assumes "wf_board st d"
  shows "\<exists>d' st'. h_copy d st = (Inr d', st') \<and> board_at st' d' = board_at st d \<and>
           wf_board st' d' \<and> frame st st'"
proof -
  have "\<exists>items st1. h_copy_loop (keys (dict_at st d)) d [] st = (Inr items, st1) \<and>
           items_board st1 items = [] @ items_board st (dict_at st d) \<and>
           list_all (\<lambda>a. a < next_set st1) (map snd items)"
    by (rule h_copy_loop_view[where fin = "[]"])
       (use assms in \<open>simp_all add: wf_board_def items_board_def keys_def\<close>)
  then obtain items st1 where lp: "h_copy_loop (keys (dict_at st d)) d [] st = (Inr items, st1)"
    and v: "items_board st1 items = items_board st (dict_at st d)"
    and lt: "list_all (\<lambda>a. a < next_set st1) (map snd items)"
    by auto
  obtain d' st2 where nd: "new_dict items st1 = (d', st2)" by (cases "new_dict items st1")
  note e2 = frame_new_dict[OF nd]
  have run: "h_copy d st = (Inr d', st2)" using lp nd by (simp add: h_copy_def)
  have "board_at st2 d' = items_board st1 items"
    using e2 by (simp add: board_at_items items_board_def)
  with v have b: "board_at st2 d' = board_at st d" by (simp add: board_at_items)
  have "keys items = keys (dict_at st d)"
    using v keys_items_board[of st1 items] keys_items_board[of st "dict_at st d"] by simp
  then have w: "wf_board st2 d'"
    using e2 lt assms by (simp add: wf_board_def)
  from h_copy_effect[OF run] run b w show ?thesis by blast
qed

text \<open>\<open>ac3\<close> never makes the sets of its board larger, however it ends.\<close>

lemma h_revise_loop_le:
  "h_revise_loop Xi Xj xs d r st = (res, st') \<Longrightarrow> h_size st' d \<le> h_size st d"
proof (induction Xi Xj xs d r st rule: h_revise_loop.induct)
  case (1 Xi Xj d removed st)
  then show ?case by simp
next
  case (2 Xi Xj x xs d removed st)
  show ?case
  proof (cases "h_getitem st d Xj")
    case (Inl e)
    with "2.prems" show ?thesis by simp
  next
    case (Inr aj)
    show ?thesis
    proof (cases "list_ex (\<lambda>y. x \<noteq> y) (set_at st aj)")
      case True
      with "2.prems" Inr have "h_revise_loop Xi Xj xs d removed st = (res, st')" by simp
      from "2.IH"(2)[OF Inr _ this] True show ?thesis by simp
    next
      case False
      show ?thesis
      proof (cases "h_getitem st d Xi")
        case (Inl e)
        with "2.prems" Inr False show ?thesis by simp
      next
        case ai: (Inr ai)
        from "2.prems" Inr False ai
        have run: "h_revise_loop Xi Xj xs d True (h_discard ai x st) = (res, st')" by simp
        from "2.IH"(1)[OF Inr _ ai run] False
        have "h_size st' d \<le> h_size (h_discard ai x st) d" by simp
        with h_size_h_discard_le[of ai x st d] show ?thesis by simp
      qed
    qed
  qed
qed

lemma h_revise_le:
  "h_revise_arc_consistency Xi Xj d st = (res, st') \<Longrightarrow> h_size st' d \<le> h_size st d"
  unfolding h_revise_arc_consistency_def
  by (auto split: sum.splits dest: h_revise_loop_le)

lemma h_ac3_loop_le:
  "h_ac3_loop q d cs st = (res, st') \<Longrightarrow> h_size st' d \<le> h_size st d"
proof (induction q d cs st rule: h_ac3_loop.induct)
  case (1 d cs st)
  then show ?case by simp
next
  case (2 Xi Xj queue d cs st)
  obtain r1 st1 where rv: "h_revise_arc_consistency Xi Xj d st = (r1, st1)"
    by (cases "h_revise_arc_consistency Xi Xj d st")
  note l1 = h_revise_le[OF rv]
  show ?case
  proof (cases r1)
    case (Inl e)
    with "2.prems" rv l1 show ?thesis by simp
  next
    case (Inr removed)
    show ?thesis
    proof (cases removed)
      case False
      with "2.prems" rv Inr have run: "h_ac3_loop queue d cs st1 = (res, st')" by simp
      from "2.IH"(2)[OF rv[symmetric] Inr False run] l1 show ?thesis by simp
    next
      case True
      show ?thesis
      proof (cases "h_getitem st1 d Xi")
        case (Inl e)
        with "2.prems" rv Inr True l1 show ?thesis by simp
      next
        case ai: (Inr ai)
        show ?thesis
        proof (cases "length (set_at st1 ai) = 0")
          case empty: True
          with "2.prems" rv Inr True ai l1 show ?thesis by simp
        next
          case nonempty: False
          with "2.prems" rv Inr True ai
          have run: "h_ac3_loop (queue @ enqueue Xi Xj cs) d cs st1 = (res, st')" by simp
          from "2.IH"(1)[OF rv[symmetric] Inr True ai nonempty run] l1 show ?thesis by simp
        qed
      qed
    qed
  qed
qed

lemma h_ac3_le: "h_ac3 d cs st = (res, st') \<Longrightarrow> h_size st' d \<le> h_size st d"
  unfolding h_ac3_def by (rule h_ac3_loop_le)

lemma wf_board_touches: "touches st st' A \<Longrightarrow> wf_board st d \<Longrightarrow> wf_board st' d"
  by (simp add: touches_def wf_board_def)

text \<open>
  One round of the loop of \<open>solve\<close> ends when the recursive call ends on every board that
  is smaller than the board of the round.
\<close>

lemma h_branch_fuel:
  assumes IH: "\<And>d' s'. wf_board s' d' \<Longrightarrow> total_size (board_at s' d') < n \<Longrightarrow>
                 h_solve n d' cs s' \<noteq> None"
    and wf: "wf_board s d"
    and var: "var \<in> set (keys (board_at s d))" "1 < length (dom_of (board_at s d) var)"
    and n: "total_size (board_at s d) \<le> n"
  shows "h_branch (h_solve n) d cs var vl s \<noteq> None"
proof -
  from h_copy_view[OF wf] obtain d' s1 where
    cp: "h_copy d s = (Inr d', s1)" and b1: "board_at s1 d' = board_at s d"
    and w1: "wf_board s1 d'"
    by blast
  obtain a s2 where ns: "new_set [vl] s1 = (a, s2)" by (cases "new_set [vl] s1")
  from new_set_board_at[OF w1 ns] have b2: "board_at s2 d' = board_at s1 d'"
    and w2: "wf_board s2 d'" and a: "a < next_set s2" and sa: "set_at s2 a = [vl]"
    by blast+
  let ?s2' = "h_setitem d' var a s2"
  have b2': "board_at ?s2' d' = setitem (board_at s d) var [vl]"
    by (simp add: board_at_h_setitem b2 b1 sa)
  have w2': "wf_board ?s2' d'" using w2 a by (rule wf_board_h_setitem)
  from keys_map_of[OF var(1)]
  have "total_size (setitem (board_at s d) var [vl]) + length (dom_of (board_at s d) var) =
        total_size (board_at s d) + length [vl]"
    by (rule total_size_setitem)
  with var(2) n have lt: "total_size (board_at ?s2' d') < n" by (simp add: b2')
  obtain r3 s3 where ac: "h_ac3 d' cs ?s2' = (r3, s3)" by (cases "h_ac3 d' cs ?s2'")
  have w3: "wf_board s3 d'" using h_ac3_touches[OF ac] w2' by (rule wf_board_touches)
  from h_ac3_le[OF ac] have "total_size (board_at s3 d') \<le> total_size (board_at ?s2' d')"
    by (simp add: h_size_total w3 w2')
  with lt have "total_size (board_at s3 d') < n" by simp
  from IH[OF w3 this] obtain r4 s4 where rec: "h_solve n d' cs s3 = Some (r4, s4)" by auto
  show ?thesis
    by (cases r3; cases r4) (auto simp: h_branch_def cp ns ac rec split: option.splits)
qed

lemma h_try_values_fuel:
  assumes "\<And>vl s. frame st s \<Longrightarrow> body vl s \<noteq> None"
    and "\<And>vl s r s'. body vl s = Some (r, s') \<Longrightarrow> frame s s'"
  shows "frame st s \<Longrightarrow> h_try_values body vals s \<noteq> None"
proof (induction vals arbitrary: s)
  case Nil
  then show ?case by simp
next
  case (Cons vl rest)
  from assms(1)[OF Cons.prems, of vl] obtain r s' where b: "body vl s = Some (r, s')" by auto
  from assms(2)[OF b] Cons.prems have "frame st s'" by (blast intro: frame_trans)
  from Cons.IH[OF this] b show ?case by (auto split: sum.splits option.splits)
qed

text \<open>
  The depth of the recursion is bounded by the sum of the sizes of the sets of the
  board: fuel above it is enough.
\<close>

lemma h_solve_fuel:
  "wf_board st d \<Longrightarrow> total_size (board_at st d) < n \<Longrightarrow> h_solve n d cs st \<noteq> None"
proof (induction n arbitrary: d st)
  case 0
  then show ?case by simp
next
  case (Suc n)
  let ?b = "board_at st d"
  let ?sel = "if truthy (mrv ?b) then mrv ?b else degree_heuristic ?b cs"
  show ?case
  proof (cases "is_board_complete ?b")
    case True
    then show ?thesis by simp
  next
    case False
    show ?thesis
    proof (cases ?sel)
      case None
      with False show ?thesis
        by (auto simp: h_mrv_def h_degree_heuristic_def split: if_splits)
    next
      case (Some var)
      then have sel: "py_or (mrv ?b) (degree_heuristic ?b cs) = Some var"
        by (simp add: py_or_def)
      note v = py_or_Some[OF sel]
      show ?thesis
      proof (cases "var = [] \<or> (\<exists>e. h_getitem st d var = Inl e)")
        case True
        with False Some show ?thesis
          by (auto simp: h_mrv_def h_degree_heuristic_def split: if_splits)
      next
        case ok: False
        then obtain a where a: "h_getitem st d var = Inr a" and ne: "var \<noteq> []"
          by (cases "h_getitem st d var") auto
        have body: "h_branch (h_solve n) d cs var vl s \<noteq> None" if "frame st s" for vl s
        proof -
          from frame_board_at[OF Suc.prems(1) that]
          have b: "board_at s d = ?b" and w: "wf_board s d" by blast+
          show ?thesis
            by (rule h_branch_fuel[OF Suc.IH w])
               (use v Suc.prems(2) in \<open>simp_all add: b\<close>)
        qed
        have fr: "frame s s'" if "h_branch (h_solve n) d cs var vl s = Some (r, s')"
          for vl s r s'
          using that by (rule h_branch_frame[rotated]) (rule h_solve_frame)
        have "h_try_values (h_branch (h_solve n) d cs var) (set_at st a) st \<noteq> None"
          by (rule h_try_values_fuel[where st = st, OF body fr frame_refl])
        with False Some a ne show ?thesis
          by (auto simp: h_mrv_def h_degree_heuristic_def split: if_splits)
      qed
    qed
  qed
qed

subsection \<open>A board in a fresh store\<close>

text \<open>
  The store that holds one board and nothing else: the dict at address 0, and one set
  object for each of its entries.
\<close>

definition store_of :: "board \<Rightarrow> store" where
  "store_of b =
     \<lparr>set_at = (\<lambda>a. if a < length b then snd (b ! a) else []),
      dict_at = (\<lambda>d. if d = 0 then zip (keys b) [0..<length b] else []),
      next_set = length b,
      next_dict = 1\<rparr>"

lemma board_at_store_of: "board_at (store_of b) 0 = b"
  unfolding board_at_def store_of_def keys_def
  by (rule nth_equalityI) (simp_all add: prod_eq_iff)

lemma wf_board_store_of: "distinct (keys b) \<Longrightarrow> wf_board (store_of b) 0"
  unfolding wf_board_def
  by (auto simp: store_of_def keys_def list_all_iff dest: set_zip_rightD)

section \<open>Claim about the caller's board\<close>

text \<open>
  C9, no mutation of the caller's board.  The board is the dict object at address \<open>d\<close>
  of a store in which it exists (\<open>wf_board\<close>); its entries may even share set objects.
  \<open>mrv\<close> and \<open>degree_heuristic\<close> return the store they were given.  \<open>solve\<close> returns when
  it is given enough fuel, and whenever it returns, with a solution, without one or with
  an exception, every object that existed before the call is unchanged (\<open>frame\<close>): the
  dict of the caller holds the same set objects under the same keys, and the board it
  holds maps every cell to the domain it held before the call.  All writes go to the set
  and dict objects that the call itself creates.
\<close>

theorem solve_leaves_callers_board:
  assumes "wf_board st d"
  shows "snd (h_mrv d st) = st \<and> snd (h_degree_heuristic d cs st) = st \<and>
         (\<exists>n r st'. h_solve n d cs st = Some (r, st')) \<and>
         (\<forall>n r st'. h_solve n d cs st = Some (r, st') \<longrightarrow>
            frame st st' \<and> dict_at st' d = dict_at st d \<and> board_at st' d = board_at st d)"
proof (intro conjI allI impI)
  show "snd (h_mrv d st) = st" by (simp add: h_mrv_def)
  show "snd (h_degree_heuristic d cs st) = st" by (simp add: h_degree_heuristic_def)
  have "h_solve (Suc (total_size (board_at st d))) d cs st \<noteq> None"
    by (rule h_solve_fuel[OF assms]) simp
  then obtain r st' where "h_solve (Suc (total_size (board_at st d))) d cs st = Some (r, st')"
    by (cases "h_solve (Suc (total_size (board_at st d))) d cs st") auto
  then show "\<exists>n r st'. h_solve n d cs st = Some (r, st')" by blast
next
  fix n r st'
  assume "h_solve n d cs st = Some (r, st')"
  then have fr: "frame st st'" by (rule h_solve_frame)
  then show "frame st st'" .
  from frame_board_at[OF assms fr]
  show "dict_at st' d = dict_at st d" and "board_at st' d = board_at st d" by blast+
qed

theorem solve_leaves_callers_board_witness:
  "wf_board (store_of puzzle) 0 \<and>
   (\<exists>n r st'. h_solve n 0 generate_constraints (store_of puzzle) = Some (r, st') \<and>
      board_at st' 0 = puzzle)"
proof -
  have w: "wf_board (store_of puzzle) 0"
    by (rule wf_board_store_of) (simp add: puzzle_def keys_board_from distinct_cells)
  from solve_leaves_callers_board[OF w, of generate_constraints] w show ?thesis
    by (metis board_at_store_of)
qed

end
